theory Spec2Isabelle
  imports Complex_Main "HOL-Library.Word" "HOL-Library.Log_Nat"
begin

section \<open>Strings as the source uses them\<close>

text \<open>
  JavaScript strings are modelled as \<open>string\<close>: lists of characters with the code points 0
  to 255. The helpers below are \<^verbatim>\<open>String.prototype.toLowerCase\<close>,
  \<^verbatim>\<open>includes\<close>, \<^verbatim>\<open>trim\<close> and the regular expression classes
  \<^verbatim>\<open>\s\<close>, \<^verbatim>\<open>\d\<close>, \<^verbatim>\<open>\w\<close> on these characters. Whitespace
  (for \<^verbatim>\<open>\s\<close> and for \<^verbatim>\<open>trim\<close> alike) is tab, line feed, vertical tab, form
  feed, carriage return, space and the no-break space; digits and word characters are
  ASCII only; the capital letters are A to Z and, for \<^verbatim>\<open>toLowerCase\<close>, also the
  accented capitals from 0xC0 to 0xDE except the multiplication sign 0xD7.
\<close>

definition is_space :: "char \<Rightarrow> bool" where
  "is_space c = (c \<in> set [CHR 0x09, CHR 0x0A, CHR 0x0B, CHR 0x0C, CHR 0x0D, CHR '' '', CHR 0xA0])"

definition is_digit :: "char \<Rightarrow> bool" where
  "is_digit c = (c \<in> set ''0123456789'')"

definition is_upper :: "char \<Rightarrow> bool" where
  "is_upper c = (c \<in> set ''ABCDEFGHIJKLMNOPQRSTUVWXYZ'')"

definition is_word_char :: "char \<Rightarrow> bool" where
  "is_word_char c =
     (is_digit c \<or> is_upper c \<or> c \<in> set ''abcdefghijklmnopqrstuvwxyz_'')"

definition is_accented_upper :: "char \<Rightarrow> bool" where
  "is_accented_upper c =
     (192 \<le> (of_char c :: nat) \<and> (of_char c :: nat) \<le> 222 \<and> (of_char c :: nat) \<noteq> 215)"

definition lower_char :: "char \<Rightarrow> char" where
  "lower_char c =
     (if is_upper c \<or> is_accented_upper c then char_of (of_char c + (32::nat)) else c)"

definition toLowerCase :: "string \<Rightarrow> string" where
  "toLowerCase s = map lower_char s"

definition starts_with :: "string \<Rightarrow> string \<Rightarrow> bool" where
  "starts_with w s = (take (length w) s = w)"

fun str_includes :: "string \<Rightarrow> string \<Rightarrow> bool" where
  "str_includes [] w = (w = [])"
| "str_includes (c # cs) w = (starts_with w (c # cs) \<or> str_includes cs w)"

definition js_trim :: "string \<Rightarrow> string" where
  "js_trim s = rev (dropWhile is_space (rev (dropWhile is_space s)))"

text \<open>
  Decimal rendering of a non-negative integer, as a template literal prints it.
  \<open>digit_char\<close> is only ever applied to numbers below 10.
\<close>

definition digit_char :: "nat \<Rightarrow> char" where
  "digit_char d = ''0123456789'' ! d"

fun show_nat :: "nat \<Rightarrow> string" where
  "show_nat n = (if n < 10 then [digit_char n] else show_nat (n div 10) @ [digit_char (n mod 10)])"

declare show_nat.simps [simp del]


section \<open>JavaScript numbers\<close>

text \<open>
  A finite JavaScript number is a rational number, and the result of an arithmetic
  operation is the exact result rounded to the nearest double (precision 53), ties to the
  even significand; storing into a \<^verbatim>\<open>Float32Array\<close> rounds to the nearest single
  (precision 24) in the same way. \<open>round_to p\<close> is that rounding for an unbounded exponent
  range: overflow and subnormal numbers are not modelled. They do not arise for PCM
  samples, where magnitudes lie between \<open>1 / 32768\<close> and \<open>32768\<close>, nor for retry hints
  below \<open>10 ^ 300\<close> seconds. \<open>binade x\<close> is the exponent \<open>e\<close> with
  \<open>2 ^ e \<le> \<bar>x\<bar> < 2 ^ (e + 1)\<close>.
\<close>

definition round_ties_even :: "rat \<Rightarrow> int" where
  "round_ties_even y =
     (let f = \<lfloor>y\<rfloor>; r = y - of_int f in
      if r < 1 / 2 then f
      else if r > 1 / 2 then f + 1
      else if even f then f else f + 1)"

definition binade :: "rat \<Rightarrow> int" where
  "binade x =
     (case quotient_of \<bar>x\<bar> of
        (a, b) \<Rightarrow> (let k = bitlen a - bitlen b in if 2 powi k \<le> \<bar>x\<bar> then k else k - 1))"

definition round_to :: "nat \<Rightarrow> rat \<Rightarrow> rat" where
  "round_to p x =
     (if x = 0 then 0
      else (let ulp = 2 powi (binade x - int p + 1) in of_int (round_ties_even (x / ulp)) * ulp))"

definition to_double :: "rat \<Rightarrow> rat" where "to_double = round_to 53"
definition to_float32 :: "rat \<Rightarrow> rat" where "to_float32 = round_to 24"


section \<open>Conversation data (src/utils/gemini.js)\<close>

datatype part = TextPart string | InlineData string string

datatype role = User | Model

record entry =
  role :: role
  parts :: "part list"

record media_input =
  mimeType :: string
  data :: string

text \<open>
  The argument of \<^verbatim>\<open>sendRealtimeInput\<close>: \<^verbatim>\<open>{text?, media?}\<close>. The audio path
  passes an object with neither field, for which both fields are \<open>None\<close> here.
\<close>

record realtime_input =
  input_text :: "string option"
  input_media :: "media_input option"

text \<open>
  The module-level variables that \<^verbatim>\<open>sendRealtimeInput\<close> reads, and the result of
  \<^verbatim>\<open>getExamMessageHint()\<close>. That function lives in the prompts module, which is not
  modelled, so its result is a parameter.
\<close>

record env =
  currentMode :: string
  storedLanguageName :: string
  examHint :: string

record session =
  model :: string
  systemPrompt :: string
  tools :: "string list"
  isClosed :: bool
  conversationHistory :: "entry list"

record request =
  req_model :: string
  req_contents :: "entry list"
  req_systemInstruction :: string
  req_tools :: "string list"

text \<open>
  What the opaque streaming call can do: reject (the awaited
  \<^verbatim>\<open>generateContentStream\<close> throws an error with the given message), or hand back a
  stream. A stream yields chunks, each given by the texts of the parts of its first
  candidate (a part without text is \<open>''''\<close>, a chunk without candidates is \<open>[]\<close>), and then
  either ends or throws. The last component is the texts of the parts of the first
  candidate of the awaited result that the fallback path reads.
\<close>

datatype stream_end = StreamDone | StreamError string

datatype backend_outcome =
    Rejected string
  | Stream "string list list" stream_end "string list"

datatype renderer_msg = UpdateStatus string | UpdateResponse string

text \<open>
  Everything outside the session object that the calls touch: the messages sent to the
  renderer, the requests issued to the backend, and the rate-limit countdown
  (\<^verbatim>\<open>rateLimitCountdownInterval\<close> with the \<^verbatim>\<open>statusMessage\<close> and
  \<^verbatim>\<open>remainingSec\<close> its callback closes over; \<open>None\<close> when no interval is set).
\<close>

record world =
  sent :: "renderer_msg list"
  requests :: "request list"
  countdown :: "(string \<times> int) option"

datatype ret = RetUndefined | RetNull | RetText string

datatype 'a completion = Returned 'a | Threw string

definition sendToRenderer :: "renderer_msg \<Rightarrow> world \<Rightarrow> world" where
  "sendToRenderer m w = w\<lparr>sent := sent w @ [m]\<rparr>"


section \<open>Rate-limit recovery (scheduleGeminiRateLimitRecovery, parseGeminiRateLimitError)\<close>

definition countdown_status :: "string \<Rightarrow> int \<Rightarrow> string" where
  "countdown_status statusMessage remainingSec =
     statusMessage @ '' ('' @ show_nat (nat remainingSec) @ ''s)''"

text \<open>\<^verbatim>\<open>Math.ceil(recoveryMs / 1000)\<close> on a whole number of milliseconds.\<close>

definition ceil_seconds :: "int \<Rightarrow> int" where
  "ceil_seconds recoveryMs = - ((- recoveryMs) div 1000)"

definition scheduleGeminiRateLimitRecovery :: "string \<Rightarrow> int \<Rightarrow> world \<Rightarrow> world" where
  "scheduleGeminiRateLimitRecovery statusMessage recoveryMs w =
     (let remainingSec = ceil_seconds recoveryMs;
          w1 = sendToRenderer (UpdateStatus (countdown_status statusMessage remainingSec)) w
      in w1\<lparr>countdown := Some (statusMessage, remainingSec)\<rparr>)"



text \<open>
  The two regular expressions of \<^verbatim>\<open>parseGeminiRateLimitError\<close>, both with the
  \<^verbatim>\<open>i\<close> flag: \<^verbatim>\<open>/retryDelay[\\"\s:]+(\d+\.?\d*)s/\<close> and
  \<^verbatim>\<open>/retry in (\d+\.?\d*)s/\<close>. The character classes that follow one another
  are disjoint, so the greedy reading below is the only way either expression can match
  at a given position. The captured number is kept as its digits without the point and
  the count of digits after the point: \<open>(26326, 3)\<close> stands for 26.326.
\<close>

definition is_retry_sep :: "char \<Rightarrow> bool" where
  "is_retry_sep c = (c = CHR 0x5C \<or> c = CHR 0x22 \<or> is_space c \<or> c = CHR '':'')"

fun digits_value :: "int \<Rightarrow> string \<Rightarrow> int" where
  "digits_value acc [] = acc"
| "digits_value acc (c # cs) = digits_value (acc * 10 + (of_char c - 48)) cs"

definition match_seconds :: "string \<Rightarrow> (int \<times> nat) option" where
  "match_seconds s =
     (let ds = takeWhile is_digit s; r1 = dropWhile is_digit s in
      if ds = [] then None
      else
        (let r2 = (if r1 \<noteq> [] \<and> hd r1 = CHR ''.'' then tl r1 else r1);
             fs = takeWhile is_digit r2;
             r3 = dropWhile is_digit r2
         in if r3 \<noteq> [] \<and> (hd r3 = CHR ''s'' \<or> hd r3 = CHR ''S'')
            then Some (digits_value 0 (ds @ fs), length fs)
            else None))"

definition match_retryDelay :: "string \<Rightarrow> (int \<times> nat) option" where
  "match_retryDelay s =
     (if toLowerCase (take 10 s) = ''retrydelay'' \<and> takeWhile is_retry_sep (drop 10 s) \<noteq> []
      then match_seconds (dropWhile is_retry_sep (drop 10 s))
      else None)"

definition match_retry_in :: "string \<Rightarrow> (int \<times> nat) option" where
  "match_retry_in s =
     (if toLowerCase (take 9 s) = ''retry in '' then match_seconds (drop 9 s) else None)"

text \<open>The leftmost position at which a pattern matches.\<close>

fun first_match :: "(string \<Rightarrow> 'a option) \<Rightarrow> string \<Rightarrow> 'a option" where
  "first_match m [] = m []"
| "first_match m (c # cs) = (case m (c # cs) of Some r \<Rightarrow> Some r | None \<Rightarrow> first_match m cs)"

text \<open>
  \<^verbatim>\<open>Math.ceil((retrySec + 2) * 1000)\<close> in double arithmetic: \<^verbatim>\<open>parseFloat\<close>
  gives the double nearest to the decimal number, and the sum and the product are each
  rounded to a double.
\<close>

definition parseFloat_decimal :: "int \<times> nat \<Rightarrow> rat" where
  "parseFloat_decimal h = (case h of (n, k) \<Rightarrow> to_double (of_int n / 10 ^ k))"

definition recovery_ms :: "int \<times> nat \<Rightarrow> int" where
  "recovery_ms h =
     (let retrySec = parseFloat_decimal h in \<lceil>to_double (to_double (retrySec + 2) * 1000)\<rceil>)"

definition retry_hint :: "string \<Rightarrow> (int \<times> nat) option" where
  "retry_hint errorMessage =
     (case first_match match_retryDelay errorMessage of
        Some h \<Rightarrow> Some h
      | None \<Rightarrow> first_match match_retry_in errorMessage)"

definition parseGeminiRateLimitError :: "string \<Rightarrow> string \<times> int" where
  "parseGeminiRateLimitError errorMessage =
     (let recoveryMs = (case retry_hint errorMessage of Some h \<Rightarrow> recovery_ms h | None \<Rightarrow> 60 * 1000);
          msgLower = toLowerCase errorMessage;
          statusMessage =
            (if str_includes msgLower ''resource_exhausted'' \<or> str_includes msgLower ''resource has been exhausted''
             then ''Rate Limit (Gemini): Quota exhausted''
             else if str_includes msgLower ''tokens'' \<or> str_includes msgLower ''tpm''
             then ''Rate Limit (Gemini): Tokens exceeded''
             else if str_includes msgLower ''requests'' \<or> str_includes msgLower ''rpm''
             then ''Rate Limit (Gemini): Requests exceeded''
             else ''Rate Limit (Gemini)'')
      in (statusMessage, recoveryMs))"


section \<open>The session object (initializeGeminiSession)\<close>

definition truthy_text :: "realtime_input \<Rightarrow> bool" where
  "truthy_text input = (case input_text input of None \<Rightarrow> False | Some t \<Rightarrow> t \<noteq> [])"

definition has_media :: "realtime_input \<Rightarrow> bool" where
  "has_media input = (input_media input \<noteq> None)"

definition language_reminder :: "env \<Rightarrow> string" where
  "language_reminder e =
     ''CRITICAL: You MUST respond entirely in '' @ storedLanguageName e @ ''. Do NOT respond in English.''"

definition media_part :: "realtime_input \<Rightarrow> part list" where
  "media_part input =
     (case input_media input of None \<Rightarrow> [] | Some m \<Rightarrow> [InlineData (mimeType m) (data m)])"

text \<open>The \<^verbatim>\<open>parts\<close> array built for the current message.\<close>

definition build_parts :: "env \<Rightarrow> realtime_input \<Rightarrow> part list" where
  "build_parts e input =
     (let nl2 = [CHR 0x0A, CHR 0x0A];
          coding = (currentMode e = ''coding'');
          foreign = (storedLanguageName e \<noteq> ''English'');
          parts1 =
            (if truthy_text input then
               [TextPart (the (input_text input)
                          @ (if coding then examHint e else [])
                          @ (if foreign then nl2 @ language_reminder e else []))]
             else if has_media input \<and> coding then
               [TextPart (examHint e @ (if foreign then nl2 @ language_reminder e else []))]
             else []);
          parts2 =
            (if has_media input then
               media_part input
               @ (if \<not> truthy_text input \<and> \<not> coding \<and> foreign
                  then [TextPart (language_reminder e)] else [])
             else [])
      in parts1 @ parts2)"

fun is_inline :: "part \<Rightarrow> bool" where
  "is_inline (InlineData m d) = True"
| "is_inline (TextPart t) = False"

definition placeholder :: "part \<Rightarrow> part" where
  "placeholder p = (if is_inline p then TextPart ''[screenshot]'' else p)"

definition image_turn :: "entry \<Rightarrow> bool" where
  "image_turn en = (role en = User \<and> list_ex is_inline (parts en))"

definition strip_entry :: "entry \<Rightarrow> entry" where
  "strip_entry en = en\<lparr>parts := map placeholder (parts en)\<rparr>"

text \<open>The history as it is sent with a request.\<close>

definition history_for_request :: "env \<Rightarrow> realtime_input \<Rightarrow> entry list \<Rightarrow> entry list" where
  "history_for_request e input h =
     (let shouldStripImages = (currentMode e = ''interview'' \<or> \<not> has_media input) in
      if shouldStripImages \<and> list_ex image_turn h
      then map (\<lambda>en. if image_turn en then \<lparr>role = role en, parts = map placeholder (parts en)\<rparr> else en) h
      else h)"

text \<open>
  The loop that keeps the last three screenshots runs from the last entry to the first;
  the recursion below walks the reversed history with \<^verbatim>\<open>imageCount\<close> as argument.
\<close>

fun strip_loop :: "nat \<Rightarrow> entry list \<Rightarrow> entry list" where
  "strip_loop imageCount [] = []"
| "strip_loop imageCount (en # older) =
     (if image_turn en then
        (if imageCount + 1 > 3 then strip_entry en else en) # strip_loop (imageCount + 1) older
      else en # strip_loop imageCount older)"

definition strip_old_images :: "entry list \<Rightarrow> entry list" where
  "strip_old_images h = rev (strip_loop 0 (rev h))"

text \<open>\<^verbatim>\<open>if (h.length > 16) h = h.slice(-16)\<close>\<close>

definition cap_turns :: "entry list \<Rightarrow> entry list" where
  "cap_turns h = (if length h > 16 then drop (length h - 16) h else h)"

text \<open>The history update of a request that produced text (both the main and the fallback path).\<close>

definition commit_turn :: "part list \<Rightarrow> string \<Rightarrow> session \<Rightarrow> session" where
  "commit_turn ps responseText s =
     s\<lparr>conversationHistory :=
         strip_old_images
           (cap_turns (conversationHistory s
              @ [\<lparr>role = User, parts = ps\<rparr>, \<lparr>role = Model, parts = [TextPart responseText]\<rparr>]))\<rparr>"

definition collect_texts :: "string list \<Rightarrow> string" where
  "collect_texts ts = concat (filter (\<lambda>t. t \<noteq> []) ts)"

definition has_response :: "string \<Rightarrow> bool" where
  "has_response responseText = (responseText \<noteq> [] \<and> js_trim responseText \<noteq> [])"

definition ready_status :: "env \<Rightarrow> string \<Rightarrow> string" where
  "ready_status e other = (if currentMode e = ''interview'' then ''Listening...'' else other)"

text \<open>The argument of \<^verbatim>\<open>generateContentStream\<close>, without the generation settings.\<close>

definition build_request :: "env \<Rightarrow> session \<Rightarrow> realtime_input \<Rightarrow> request" where
  "build_request e s input =
     \<lparr>req_model = model s,
      req_contents = history_for_request e input (conversationHistory s)
                       @ [\<lparr>role = User, parts = build_parts e input\<rparr>],
      req_systemInstruction = systemPrompt s,
      req_tools = tools s\<rparr>"

text \<open>
  The body of the outer \<^verbatim>\<open>try\<close>. The interim \<^verbatim>\<open>update-response\<close> snapshots,
  which depend on the wall clock, and the generation settings of the request are left out;
  neither touches the session.
\<close>

definition try_body ::
  "env \<Rightarrow> (request \<Rightarrow> backend_outcome) \<Rightarrow> session \<Rightarrow> world \<Rightarrow> realtime_input
     \<Rightarrow> ret completion \<times> session \<times> world" where
  "try_body e backend s w input =
     (if has_media input \<or> truthy_text input then
        (let w1 = (if currentMode e \<noteq> ''interview''
                   then sendToRenderer (UpdateStatus ''Analyzing...'') w else w);
             ps = build_parts e input;
             req = build_request e s input;
             w2 = w1\<lparr>requests := requests w1 @ [req]\<rparr>
         in case backend req of
              Rejected msg \<Rightarrow> (Threw msg, s, w2)
            | Stream chunks fin fallback \<Rightarrow>
                (let responseText = concat (map collect_texts chunks) in
                 case fin of
                   StreamDone \<Rightarrow>
                     (let w3 = sendToRenderer (UpdateResponse responseText) w2 in
                      if has_response responseText
                      then (Returned (RetText responseText), commit_turn ps responseText s,
                            sendToRenderer (UpdateStatus (ready_status e ''Ready'')) w3)
                      else (Returned RetNull, s,
                            sendToRenderer (UpdateStatus (ready_status e ''No response generated'')) w3))
                 | StreamError msg \<Rightarrow>
                     (let responseText2 = responseText @ collect_texts fallback in
                      if has_response responseText2
                      then (Returned (RetText responseText2), commit_turn ps responseText2 s,
                            sendToRenderer (UpdateStatus (ready_status e ''Ready''))
                              (sendToRenderer (UpdateResponse responseText2) w2))
                      else (Threw msg, s, w2))))
      else (Returned RetNull, s, w))"

text \<open>The outer \<^verbatim>\<open>catch\<close> block.\<close>

definition catch_handler :: "string \<Rightarrow> world \<Rightarrow> world" where
  "catch_handler message w =
     (let errMsg = toLowerCase message in
      if str_includes errMsg ''429'' then
        (case parseGeminiRateLimitError message of
           (statusMessage, recoveryMs) \<Rightarrow> scheduleGeminiRateLimitRecovery statusMessage recoveryMs w)
      else if str_includes errMsg ''503'' \<or> str_includes errMsg ''overloaded''
              \<or> str_includes errMsg ''unavailable'' then
        scheduleGeminiRateLimitRecovery ''Server Overloaded (Gemini)'' (15 * 1000) w
      else
        sendToRenderer
          (UpdateStatus
             (if str_includes errMsg ''401'' \<or> str_includes errMsg ''api_key_invalid''
                 \<or> str_includes errMsg ''api key not valid'' then ''Invalid API Key (Gemini)''
              else if str_includes errMsg ''404'' \<or> str_includes errMsg ''not found''
                 \<or> str_includes errMsg ''not_found'' then ''Model Unavailable (Gemini)''
              else if str_includes errMsg ''deprecated'' \<or> str_includes errMsg ''decommission''
                 then ''Model Deprecated (Gemini)''
              else ''Error'')) w)"

text \<open>
  \<^verbatim>\<open>sendRealtimeInput\<close>: the result, the session and the world after the call. The
  function has no exceptional result: whatever the \<^verbatim>\<open>try\<close> body throws is caught.
\<close>

definition sendRealtimeInput ::
  "env \<Rightarrow> (request \<Rightarrow> backend_outcome) \<Rightarrow> session \<Rightarrow> world \<Rightarrow> realtime_input
     \<Rightarrow> ret \<times> session \<times> world" where
  "sendRealtimeInput e backend s w input =
     (if isClosed s then (RetUndefined, s, w)
      else
        (case try_body e backend s w input of
           (Returned r, s1, w1) \<Rightarrow> (r, s1, w1)
         | (Threw message, s1, w1) \<Rightarrow> (RetNull, s1, catch_handler message w1)))"

definition close :: "session \<Rightarrow> world \<Rightarrow> session \<times> world" where
  "close s w = (s\<lparr>isClosed := True\<rparr>, sendToRenderer (UpdateStatus ''Session closed'') w)"

text \<open>The session object as \<^verbatim>\<open>initializeGeminiSession\<close> creates it.\<close>

definition new_session :: "string \<Rightarrow> string \<Rightarrow> string list \<Rightarrow> session" where
  "new_session regularModel sessionPrompt enabledTools =
     \<lparr>model = regularModel, systemPrompt = sessionPrompt, tools = enabledTools,
      isClosed = False, conversationHistory = []\<rparr>"

text \<open>
  A sequence of calls on one session. Each call comes with the module variables and the
  backend behaviour in force when it is made.
\<close>

type_synonym call = "env \<times> (request \<Rightarrow> backend_outcome) \<times> realtime_input"

fun run_calls :: "session \<Rightarrow> world \<Rightarrow> call list \<Rightarrow> ret list \<times> session \<times> world" where
  "run_calls s w [] = ([], s, w)"
| "run_calls s w ((e, backend, input) # cs) =
     (case sendRealtimeInput e backend s w input of
        (r, s1, w1) \<Rightarrow> (case run_calls s1 w1 cs of (rs, s2, w2) \<Rightarrow> (r # rs, s2, w2)))"

subsection \<open>Vocabulary for statements about the history\<close>

text \<open>
  \<open>aged original kept\<close>: the entry kept in the history is the original one, or the
  original with its images replaced by the placeholder.
\<close>

definition aged :: "entry \<Rightarrow> entry \<Rightarrow> bool" where
  "aged original kept = (kept = original \<or> kept = strip_entry original)"

definition no_inline :: "entry \<Rightarrow> bool" where
  "no_inline en = (\<not> list_ex is_inline (parts en))"

text \<open>The two entries that a call returning the text \<open>t\<close> pushes.\<close>

definition turn_entries :: "env \<Rightarrow> realtime_input \<Rightarrow> string \<Rightarrow> entry list" where
  "turn_entries e input t =
     [\<lparr>role = User, parts = build_parts e input\<rparr>, \<lparr>role = Model, parts = [TextPart t]\<rparr>]"

text \<open>All entries pushed by a sequence of calls, given what each call returned.\<close>

fun appended :: "call list \<Rightarrow> ret list \<Rightarrow> entry list" where
  "appended ((e, backend, input) # cs) (RetText t # rs) = turn_entries e input t @ appended cs rs"
| "appended (c # cs) (r # rs) = appended cs rs"
| "appended cs rs = []"

subsection \<open>Concrete sessions used as instances\<close>

definition demo_env :: env where
  "demo_env = \<lparr>currentMode = ''interview'', storedLanguageName = ''English'', examHint = ''''\<rparr>"

definition demo_session :: session where
  "demo_session = new_session ''gemini-2.5-flash'' ''prompt'' []"

definition demo_world :: world where
  "demo_world = \<lparr>sent = [], requests = [], countdown = None\<rparr>"

definition answers :: "string \<Rightarrow> request \<Rightarrow> backend_outcome" where
  "answers a req = Stream [[a]] StreamDone []"

definition text_call :: "string \<Rightarrow> string \<Rightarrow> call" where
  "text_call q a = (demo_env, answers a, \<lparr>input_text = Some q, input_media = None\<rparr>)"

definition nine_calls :: "call list" where
  "nine_calls = [text_call ''q1'' ''a1'', text_call ''q2'' ''a2'', text_call ''q3'' ''a3'',
                 text_call ''q4'' ''a4'', text_call ''q5'' ''a5'', text_call ''q6'' ''a6'',
                 text_call ''q7'' ''a7'', text_call ''q8'' ''a8'', text_call ''q9'' ''a9'']"

subsection \<open>Vocabulary for statements about screenshots\<close>

definition user_entry :: "env \<Rightarrow> realtime_input \<Rightarrow> entry" where
  "user_entry e input = \<lparr>role = User, parts = build_parts e input\<rparr>"

definition model_entry :: "string \<Rightarrow> entry" where
  "model_entry t = \<lparr>role = Model, parts = [TextPart t]\<rparr>"

definition image_call :: "string \<Rightarrow> string \<Rightarrow> call" where
  "image_call d a =
     (demo_env, answers a, \<lparr>input_text = None, input_media = Some \<lparr>mimeType = ''image/jpeg'', data = d\<rparr>\<rparr>)"

definition five_image_calls :: "call list" where
  "five_image_calls = [image_call ''img1'' ''a1'', image_call ''img2'' ''a2'', image_call ''img3'' ''a3'',
                       image_call ''img4'' ''a4'', image_call ''img5'' ''a5'']"

definition mixed_calls :: "call list" where
  "mixed_calls = [image_call ''img1'' ''a1'', text_call ''q2'' ''a2'', image_call ''img3'' ''a3'',
                  image_call ''img4'' ''a4'', text_call ''q5'' ''a5'', image_call ''img6'' ''a6'',
                  image_call ''img7'' ''a7'']"

text \<open>
  The entries a run leaves to the history before any image is replaced: the last 16 of the
  entries the history held plus those the successful calls pushed. And the number of
  image-bearing turns that follow position \<open>i\<close> of a history.
\<close>

definition last_pushed :: "session \<Rightarrow> call list \<Rightarrow> ret list \<Rightarrow> entry list" where
  "last_pushed s cs rs =
     drop (length (conversationHistory s @ appended cs rs) - 16) (conversationHistory s @ appended cs rs)"

definition newer_images :: "entry list \<Rightarrow> nat \<Rightarrow> nat" where
  "newer_images h i = length (filter image_turn (drop (Suc i) h))"

subsection \<open>Vocabulary for statements about failed requests\<close>

text \<open>
  All the text a stream that broke off can contribute: what its chunks carried, then what
  the fallback result carries. A request fails when the call is rejected, or when the
  stream throws and that text is empty or blank.
\<close>

definition stream_text :: "string list list \<Rightarrow> string list \<Rightarrow> string" where
  "stream_text chunks fallback = concat (map collect_texts chunks) @ collect_texts fallback"

definition request_fails :: "backend_outcome \<Rightarrow> bool" where
  "request_fails out =
     (case out of
        Rejected msg \<Rightarrow> True
      | Stream chunks fin fallback \<Rightarrow>
          (case fin of StreamDone \<Rightarrow> False
           | StreamError msg \<Rightarrow> \<not> has_response (stream_text chunks fallback)))"

definition broken_stream :: "request \<Rightarrow> backend_outcome" where
  "broken_stream req = Stream [[''Hello'']] (StreamError ''socket hang up'') []"

definition rejecting :: "request \<Rightarrow> backend_outcome" where
  "rejecting req = Rejected ''429 RESOURCE_EXHAUSTED''"

definition hi_input :: realtime_input where
  "hi_input = \<lparr>input_text = Some ''hi'', input_media = None\<rparr>"

subsection \<open>Vocabulary for statements about the countdown\<close>





section \<open>The PCM framer (the stdout handler of startMacOSAudioCapture)\<close>

type_synonym byte = "8 word"

definition SAMPLE_RATE :: nat where "SAMPLE_RATE = 24000"
definition BYTES_PER_SAMPLE :: nat where "BYTES_PER_SAMPLE = 2"
definition CHANNELS :: nat where "CHANNELS = 2"

text \<open>
  \<^verbatim>\<open>SAMPLE_RATE * BYTES_PER_SAMPLE * CHANNELS * CHUNK_DURATION\<close> with the duration 0.1:
  the double nearest to the product of 96000 and the double 0.1 is 9600.
\<close>

definition CHUNK_SIZE :: nat where
  "CHUNK_SIZE = SAMPLE_RATE * BYTES_PER_SAMPLE * CHANNELS div 10"

definition maxBufferSize :: nat where
  "maxBufferSize = SAMPLE_RATE * BYTES_PER_SAMPLE * 1"

text \<open>
  The \<^verbatim>\<open>while\<close> loop of the handler: the chunks it cuts, in order, and the buffer it
  leaves. Each chunk is then downmixed and routed to the voice detector or a backend; that
  part reads the chunk only and is not modelled.
\<close>

function frame_loop :: "byte list \<Rightarrow> byte list list \<times> byte list" where
  "frame_loop audioBuffer =
     (if length audioBuffer \<ge> CHUNK_SIZE then
        (case frame_loop (drop CHUNK_SIZE audioBuffer) of
           (chunks, rest) \<Rightarrow> (take CHUNK_SIZE audioBuffer # chunks, rest))
      else ([], audioBuffer))"
  by pat_completeness auto
termination
  by (relation "measure length")
     (auto simp: CHUNK_SIZE_def SAMPLE_RATE_def BYTES_PER_SAMPLE_def CHANNELS_def)

declare frame_loop.simps [simp del]

text \<open>The condition of the trimming \<^verbatim>\<open>if\<close> that follows the loop.\<close>

definition overflow :: "byte list \<Rightarrow> bool" where
  "overflow audioBuffer = (length audioBuffer > maxBufferSize)"

text \<open>One \<^verbatim>\<open>data\<close> event: the chunks emitted and the new \<^verbatim>\<open>audioBuffer\<close>.\<close>

definition on_data :: "byte list \<Rightarrow> byte list \<Rightarrow> byte list list \<times> byte list" where
  "on_data audioBuffer incoming =
     (case frame_loop (audioBuffer @ incoming) of
        (chunks, rest) \<Rightarrow>
          (chunks, if overflow rest then drop (length rest - maxBufferSize) rest else rest))"

text \<open>A sequence of \<^verbatim>\<open>data\<close> events.\<close>

fun feed :: "byte list \<Rightarrow> byte list list \<Rightarrow> byte list list \<times> byte list" where
  "feed audioBuffer [] = ([], audioBuffer)"
| "feed audioBuffer (d # ds) =
     (case on_data audioBuffer d of
        (chunks, buf1) \<Rightarrow> (case feed buf1 ds of (later, buf2) \<Rightarrow> (chunks @ later, buf2)))"

section \<open>The speech queue of the web client\<close>

text \<open>
  \<^verbatim>\<open>normalizeSpeechText\<close>: \<^verbatim>\<open>String(text || '').replace(/\s+/g, ' ').trim()\<close>. A missing
  text is the empty string.
\<close>

function collapse_spaces :: "string \<Rightarrow> string" where
  "collapse_spaces [] = []"
| "collapse_spaces (c # cs) =
     (if is_space c then CHR '' '' # collapse_spaces (dropWhile is_space cs)
      else c # collapse_spaces cs)"
  by pat_completeness auto
termination
  by (relation "measure length") (auto simp: length_dropWhile_le less_Suc_eq_le)

definition normalizeSpeechText :: "string \<Rightarrow> string" where
  "normalizeSpeechText s = js_trim (collapse_spaces s)"

text \<open>
  A pattern \<^verbatim>\<open>/^(w1|w2|...)\b/\<close> matches when some alternative is a prefix of the
  string and a word boundary follows it. Every alternative ends in a letter, so the
  boundary is the end of the string or a character outside \<^verbatim>\<open>\w\<close>.
\<close>

definition word_prefix :: "string \<Rightarrow> string \<Rightarrow> bool" where
  "word_prefix w s =
     (starts_with w s \<and> (case drop (length w) s of [] \<Rightarrow> True | c # cs \<Rightarrow> \<not> is_word_char c))"

definition questionPattern :: "string \<Rightarrow> bool" where
  "questionPattern s =
     list_ex (\<lambda>w. word_prefix w s)
       [''what'', ''why'', ''how'', ''when'', ''where'', ''who'', ''which'', ''whom'', ''is'', ''are'',
        ''am'', ''do'', ''does'', ''did'', ''have'', ''has'', ''had'', ''can'', ''could'', ''would'',
        ''will'', ''should'', ''may'', ''might'']"

definition promptPattern :: "string \<Rightarrow> bool" where
  "promptPattern s =
     list_ex (\<lambda>w. word_prefix w s)
       [''tell me'', ''explain'', ''describe'', ''walk me through'', ''give me'',
        ''difference between'', ''what is'', ''what are'', ''how would'', ''why do'']"

definition isLikelyQuestionText :: "string \<Rightarrow> bool" where
  "isLikelyQuestionText s =
     (let normalized = normalizeSpeechText s in
      if normalized = [] then False
      else if str_includes normalized ''?'' then True
      else (let lower = toLowerCase normalized in questionPattern lower \<or> promptPattern lower))"

text \<open>
  The part of \<^verbatim>\<open>state\<close> the queue uses, with two observations added: the texts
  whose \<^verbatim>\<open>sendTextMessage\<close> call has been made and has not completed yet, and the
  texts handed to \<^verbatim>\<open>sendMessageInternal\<close> so far, in order.
\<close>

record speech_state =
  speechQueue :: "string list"
  processingSpeechQueue :: bool
  in_flight :: "string list"
  requested :: "string list"

text \<open>
  The \<^verbatim>\<open>while\<close> loop of \<^verbatim>\<open>processSpeechQueue\<close> up to its next
  \<^verbatim>\<open>await\<close>: it shifts items off the queue, skipping empty ones, and either calls
  \<^verbatim>\<open>sendTextMessage\<close> on the first non-empty item and suspends, or finds the queue
  empty and leaves through \<^verbatim>\<open>finally\<close>. \<^verbatim>\<open>sendTextMessage\<close> sends nothing for
  a blank text and the trimmed text otherwise; it catches its own errors.
\<close>

fun next_item :: "string list \<Rightarrow> string option \<times> string list" where
  "next_item [] = (None, [])"
| "next_item (nextText # queue) = (if nextText = [] then next_item queue else (Some nextText, queue))"

definition drain_until_await :: "speech_state \<Rightarrow> speech_state" where
  "drain_until_await st =
     (case next_item (speechQueue st) of
        (None, queue) \<Rightarrow> st\<lparr>speechQueue := queue, processingSpeechQueue := False\<rparr>
      | (Some nextText, queue) \<Rightarrow>
          st\<lparr>speechQueue := queue,
             in_flight := in_flight st @ [nextText],
             requested := requested st @ (if js_trim nextText = [] then [] else [js_trim nextText])\<rparr>)"

definition processSpeechQueue :: "speech_state \<Rightarrow> speech_state" where
  "processSpeechQueue st =
     (if processingSpeechQueue st then st
      else drain_until_await (st\<lparr>processingSpeechQueue := True\<rparr>))"

definition enqueueSpeechText :: "string \<Rightarrow> speech_state \<Rightarrow> speech_state" where
  "enqueueSpeechText s st =
     (let normalized = normalizeSpeechText s in
      if normalized = [] then st
      else if \<not> isLikelyQuestionText normalized then st
      else processSpeechQueue (st\<lparr>speechQueue := speechQueue st @ [normalized]\<rparr>))"

text \<open>
  The events of the cooperative schedule that touch the queue: a call of
  \<^verbatim>\<open>enqueueSpeechText\<close>, the completion of the \<open>i\<close>-th call in flight (the drain
  that awaits it resumes), and \<^verbatim>\<open>stopCapture\<close>, which empties the queue and resets the
  flag.
\<close>

text \<open>The list without its element at position \<open>i\<close>.\<close>

definition remove_nth :: "nat \<Rightarrow> 'a list \<Rightarrow> 'a list" where
  "remove_nth i xs = take i xs @ drop (Suc i) xs"

definition dispatch_completes :: "nat \<Rightarrow> speech_state \<Rightarrow> speech_state" where
  "dispatch_completes i st =
     (if i < length (in_flight st)
      then drain_until_await (st\<lparr>in_flight := remove_nth i (in_flight st)\<rparr>)
      else st)"

text \<open>
  What \<^verbatim>\<open>stopCapture\<close> does to the queue. It cancels no call in flight; the rest of
  it (speech recognition, timers, media stream) does not touch these fields.
\<close>

definition stopCapture :: "speech_state \<Rightarrow> speech_state" where
  "stopCapture st = st\<lparr>speechQueue := [], processingSpeechQueue := False\<rparr>"

datatype speech_event = Enqueue string | DispatchDone nat | StopCapture

fun speech_step :: "speech_state \<Rightarrow> speech_event \<Rightarrow> speech_state" where
  "speech_step st (Enqueue s) = enqueueSpeechText s st"
| "speech_step st (DispatchDone i) = dispatch_completes i st"
| "speech_step st StopCapture = stopCapture st"

definition speech_run :: "speech_state \<Rightarrow> speech_event list \<Rightarrow> speech_state" where
  "speech_run st evs = foldl speech_step st evs"

definition initial_speech :: speech_state where
  "initial_speech = \<lparr>speechQueue = [], processingSpeechQueue = False, in_flight = [], requested = []\<rparr>"

text \<open>
  The classification as the specification words it: the text ends with a question mark,
  or begins with one of the patterns.
\<close>

definition claimed_question :: "string \<Rightarrow> bool" where
  "claimed_question n =
     ((n \<noteq> [] \<and> last n = CHR ''?'') \<or> questionPattern (toLowerCase n) \<or> promptPattern (toLowerCase n))"

text \<open>Invariant of the queue while only enqueueing and completions happen.\<close>

definition ok_item :: "string \<Rightarrow> bool" where
  "ok_item t = (t \<noteq> [] \<and> js_trim t = t)"

definition drain_inv :: "speech_state \<Rightarrow> bool" where
  "drain_inv st =
     (list_all ok_item (speechQueue st)
      \<and> (if processingSpeechQueue st then length (in_flight st) = 1
           else in_flight st = [] \<and> speechQueue st = []))"

text \<open>The texts that a sequence of events gets past the filter, in order.\<close>

fun accepted :: "speech_event list \<Rightarrow> string list" where
  "accepted [] = []"
| "accepted (Enqueue s # evs) =
     (if normalizeSpeechText s \<noteq> [] \<and> isLikelyQuestionText (normalizeSpeechText s)
      then [normalizeSpeechText s] else []) @ accepted evs"
| "accepted (e # evs) = accepted evs"

text \<open>Every whitespace character is a blank and no two of them are adjacent.\<close>

fun collapsed :: "string \<Rightarrow> bool" where
  "collapsed [] = True"
| "collapsed [c] = (c = CHR '' '' \<or> \<not> is_space c)"
| "collapsed (c # d # r) = ((c = CHR '' '' \<and> \<not> is_space d \<or> \<not> is_space c) \<and> collapsed (d # r))"

section \<open>PCM and float conversion (convertPCMBufferToFloat32, convertFloat32ToPCMBuffer)\<close>

text \<open>The body of the loop of each conversion; \<^verbatim>\<open>Math.round\<close> rounds ties upwards.\<close>

definition sample_to_float :: "int \<Rightarrow> rat" where
  "sample_to_float int16Sample =
     to_float32 (to_double (of_int int16Sample / (if int16Sample < 0 then 32768 else 32767)))"

definition float_to_sample :: "rat \<Rightarrow> int" where
  "float_to_sample f =
     (let sample = max (- 1) (min 1 f);
          int16Sample = (if sample < 0 then to_double (sample * 32768) else to_double (sample * 32767))
      in \<lfloor>int16Sample + 1 / 2\<rfloor>)"

text \<open>
  \<^verbatim>\<open>Buffer.readInt16LE\<close> on the two bytes at an offset, and \<^verbatim>\<open>writeInt16LE\<close>, which
  throws a range error (\<open>None\<close>) outside the 16-bit range.
\<close>

definition readInt16LE :: "byte \<Rightarrow> byte \<Rightarrow> int" where
  "readInt16LE lo hi =
     (let u = uint lo + 256 * uint hi in if u \<ge> 32768 then u - 65536 else u)"

definition writeInt16LE :: "int \<Rightarrow> byte list option" where
  "writeInt16LE v =
     (if - 32768 \<le> v \<and> v \<le> 32767
      then (let u = v mod 65536 in Some [word_of_int (u mod 256), word_of_int (u div 256)])
      else None)"

text \<open>
  The conversions on whole buffers. On a buffer of odd length the last read of
  \<^verbatim>\<open>convertPCMBufferToFloat32\<close> is out of range and throws.
\<close>

fun convertPCMBufferToFloat32 :: "byte list \<Rightarrow> rat list option" where
  "convertPCMBufferToFloat32 [] = Some []"
| "convertPCMBufferToFloat32 [b] = None"
| "convertPCMBufferToFloat32 (lo # hi # rest) =
     map_option (\<lambda>fs. sample_to_float (readInt16LE lo hi) # fs) (convertPCMBufferToFloat32 rest)"

fun convertFloat32ToPCMBuffer :: "rat list \<Rightarrow> byte list option" where
  "convertFloat32ToPCMBuffer [] = Some []"
| "convertFloat32ToPCMBuffer (f # fs) =
     (case writeInt16LE (float_to_sample f) of
        None \<Rightarrow> None
      | Some bs \<Rightarrow> map_option (\<lambda>rest. bs @ rest) (convertFloat32ToPCMBuffer fs))"


section \<open>Verified properties\<close>

subsection \<open>History: cap on turns\<close>

lemma placeholder_idem: "placeholder (placeholder p) = placeholder p"
  by (cases p) (simp_all add: placeholder_def)

lemma strip_entry_idem: "strip_entry (strip_entry en) = strip_entry en"
  by (simp add: strip_entry_def placeholder_idem)

lemma aged_refl: "aged en en"
  by (simp add: aged_def)

lemma aged_trans: "aged a b \<Longrightarrow> aged b c \<Longrightarrow> aged a c"
  by (auto simp: aged_def strip_entry_idem)

lemma strip_loop_aged: "list_all2 aged xs (strip_loop c xs)"
  by (induction xs arbitrary: c) (simp_all add: aged_def)

lemma strip_old_images_aged: "list_all2 aged h (strip_old_images h)"
proof -
  have "list_all2 aged (rev h) (strip_loop 0 (rev h))" by (rule strip_loop_aged)
  then have "list_all2 aged (rev (rev h)) (rev (strip_loop 0 (rev h)))"
    by (simp only: list_all2_rev)
  then show ?thesis by (simp add: strip_old_images_def)
qed

lemma length_strip_old_images: "length (strip_old_images h) = length h"
  using strip_old_images_aged [of h] by (simp add: list_all2_lengthD)

lemma length_cap_turns: "length (cap_turns h) = min 16 (length h)"
  by (simp add: cap_turns_def)

lemma cap_turns_drop: "cap_turns h = drop (length h - 16) h"
  by (simp add: cap_turns_def)

lemma commit_turn_history:
  "conversationHistory (commit_turn ps t s) =
     strip_old_images (cap_turns (conversationHistory s @ [\<lparr>role = User, parts = ps\<rparr>, \<lparr>role = Model, parts = [TextPart t]\<rparr>]))"
  by (simp add: commit_turn_def)

text \<open>What one call does to the history.\<close>

lemma send_history_cases:
  assumes "sendRealtimeInput e backend s w input = (r, s1, w1)"
  shows "(\<exists>t. r = RetText t \<and> s1 = commit_turn (build_parts e input) t s)
       \<or> ((\<forall>t. r \<noteq> RetText t) \<and> s1 = s)"
  using assms
  by (auto simp: sendRealtimeInput_def try_body_def Let_def
      split: if_splits backend_outcome.splits stream_end.splits)


lemma list_all2_aged_refl: "list_all2 aged xs xs"
  by (simp add: list_all2_refl aged_refl)

lemma aged_chain:
  assumes a: "list_all2 aged (drop j X) h1" and j: "j \<le> length X"
    and b: "list_all2 aged (drop k (h1 @ A)) h2"
  shows "list_all2 aged (drop (k + j) (X @ A)) h2"
proof -
  have "list_all2 aged (drop j X @ A) (h1 @ A)"
    using a list_all2_aged_refl by (rule list_all2_appendI)
  then have "list_all2 aged (drop j (X @ A)) (h1 @ A)"
    using j by simp
  then have "list_all2 aged (drop k (drop j (X @ A))) (drop k (h1 @ A))"
    by (rule list_all2_dropI)
  then have c: "list_all2 aged (drop (k + j) (X @ A)) (drop k (h1 @ A))"
    by (simp only: drop_drop add.commute [of j k])
  show ?thesis
    by (rule list_all2_trans [OF aged_trans c b])
qed

lemma commit_aged:
  "list_all2 aged (drop (length (h @ T) - 16) (h @ T)) (strip_old_images (cap_turns (h @ T)))"
  using strip_old_images_aged [of "cap_turns (h @ T)"] by (simp only: cap_turns_drop)

lemma run_calls_aged:
  "run_calls s w cs = (rs, s2, w2) \<Longrightarrow>
     list_all2 aged
       (drop (length (conversationHistory s @ appended cs rs) - length (conversationHistory s2))
          (conversationHistory s @ appended cs rs))
       (conversationHistory s2)"
proof (induction cs arbitrary: s w rs)
  case Nil
  then show ?case by (simp add: list_all2_aged_refl)
next
  case (Cons c cs)
  obtain e backend input where c: "c = (e, backend, input)" by (cases c)
  obtain r s1 w1 where step: "sendRealtimeInput e backend s w input = (r, s1, w1)"
    by (cases "sendRealtimeInput e backend s w input")
  obtain rs1 where rest: "run_calls s1 w1 cs = (rs1, s2, w2)" and rs: "rs = r # rs1"
    using Cons.prems c step by (auto split: prod.splits)
  let ?A = "appended cs rs1"
  let ?h = "conversationHistory s" and ?h1 = "conversationHistory s1" and ?h2 = "conversationHistory s2"
  have ih: "list_all2 aged (drop (length (?h1 @ ?A) - length ?h2) (?h1 @ ?A)) ?h2"
    by (rule Cons.IH [OF rest])
  have len2: "length ?h2 \<le> length (?h1 @ ?A)"
    using list_all2_lengthD [OF ih] by simp
  from send_history_cases [OF step] show ?case
  proof
    assume "\<exists>t. r = RetText t \<and> s1 = commit_turn (build_parts e input) t s"
    then obtain t where r: "r = RetText t" and s1: "s1 = commit_turn (build_parts e input) t s"
      by blast
    let ?T = "turn_entries e input t"
    have h1: "?h1 = strip_old_images (cap_turns (?h @ ?T))"
      by (simp add: s1 commit_turn_history turn_entries_def)
    have a: "list_all2 aged (drop (length (?h @ ?T) - 16) (?h @ ?T)) ?h1"
      unfolding h1 by (rule commit_aged)
    have len1: "length ?h1 = min 16 (length (?h @ ?T))"
      by (simp only: h1 length_strip_old_images length_cap_turns)
    have "list_all2 aged
            (drop ((length (?h1 @ ?A) - length ?h2) + (length (?h @ ?T) - 16)) ((?h @ ?T) @ ?A)) ?h2"
      using a _ ih by (rule aged_chain) simp
    moreover have "(length (?h1 @ ?A) - length ?h2) + (length (?h @ ?T) - 16)
                     = length ((?h @ ?T) @ ?A) - length ?h2"
      using len1 len2 by (simp add: turn_entries_def)
    moreover have "appended (c # cs) rs = ?T @ ?A"
      by (simp add: c rs r)
    ultimately show ?thesis by simp
  next
    assume "(\<forall>t. r \<noteq> RetText t) \<and> s1 = s"
    then have s1: "s1 = s" and "appended (c # cs) rs = ?A"
      by (cases r; simp add: c rs)+
    with ih show ?thesis by simp
  qed
qed

lemma run_calls_length:
  "run_calls s w cs = (rs, s2, w2) \<Longrightarrow> length (conversationHistory s) \<le> 16 \<Longrightarrow>
     length (conversationHistory s2) = min 16 (length (conversationHistory s @ appended cs rs))"
proof (induction cs arbitrary: s w rs)
  case Nil
  then show ?case by simp
next
  case (Cons c cs)
  obtain e backend input where c: "c = (e, backend, input)" by (cases c)
  obtain r s1 w1 where step: "sendRealtimeInput e backend s w input = (r, s1, w1)"
    by (cases "sendRealtimeInput e backend s w input")
  obtain rs1 where rest: "run_calls s1 w1 cs = (rs1, s2, w2)" and rs: "rs = r # rs1"
    using Cons.prems c step by (auto split: prod.splits)
  from send_history_cases [OF step] show ?case
  proof
    assume "\<exists>t. r = RetText t \<and> s1 = commit_turn (build_parts e input) t s"
    then obtain t where r: "r = RetText t" and s1: "s1 = commit_turn (build_parts e input) t s"
      by blast
    have len1: "length (conversationHistory s1) = min 16 (length (conversationHistory s) + 2)"
      by (simp add: s1 commit_turn_history length_strip_old_images length_cap_turns)
    then have "length (conversationHistory s1) \<le> 16" by simp
    from Cons.IH [OF rest this] len1 show ?thesis
      by (simp add: c rs r turn_entries_def)
  next
    assume "(\<forall>t. r \<noteq> RetText t) \<and> s1 = s"
    then have s1: "s1 = s" and "appended (c # cs) rs = appended cs rs1"
      by (cases r; simp add: c rs)+
    with Cons.IH [OF rest] Cons.prems(2) show ?thesis by simp
  qed
qed

lemma placeholder_text: "\<not> is_inline p \<Longrightarrow> placeholder p = p"
  by (simp add: placeholder_def)

lemma aged_no_inline: "aged en kept \<Longrightarrow> no_inline en \<Longrightarrow> kept = en"
  by (auto simp: aged_def no_inline_def strip_entry_def list_ex_iff placeholder_text map_idI)

lemma list_all2_aged_no_inline:
  "list_all2 aged xs ys \<Longrightarrow> list_all no_inline xs \<Longrightarrow> ys = xs"
  by (induction rule: list_all2_induct) (auto dest: aged_no_inline)

lemma commit_turn_isClosed: "isClosed (commit_turn ps t s) = isClosed s"
  by (simp add: commit_turn_def)

lemma nine_calls_rets:
  "fst (run_calls demo_session demo_world nine_calls)
     = map RetText [''a1'', ''a2'', ''a3'', ''a4'', ''a5'', ''a6'', ''a7'', ''a8'', ''a9'']"
  by (simp add: nine_calls_def text_call_def demo_env_def demo_session_def demo_world_def
      answers_def new_session_def sendRealtimeInput_def try_body_def truthy_text_def has_media_def
      build_parts_def collect_texts_def has_response_def js_trim_def is_space_def ready_status_def
      sendToRenderer_def commit_turn_isClosed Let_def split: prod.splits)

text \<open>
  C1. Take any sequence of calls on a session whose history has at most 16 entries (a new
  session has none). Afterwards the history has at most 16 entries (8 turns); it consists
  of the last 16 of the entries the history held plus those the successful calls pushed,
  in the same order, each one as it was pushed or with its images replaced by the
  placeholder; and it is exactly those last 16 entries when none of them carries an image.
  The oldest entries are the ones dropped.
\<close>

theorem history_cap_oldest_first:
  assumes run: "run_calls s w cs = (rs, s2, w2)"
    and len: "length (conversationHistory s) \<le> 16"
  shows "length (conversationHistory s2) \<le> 16
    \<and> length (conversationHistory s2) = min 16 (length (conversationHistory s @ appended cs rs))
    \<and> list_all2 aged
         (drop (length (conversationHistory s @ appended cs rs) - 16) (conversationHistory s @ appended cs rs))
         (conversationHistory s2)
    \<and> (list_all no_inline (conversationHistory s @ appended cs rs) \<longrightarrow>
         conversationHistory s2
           = drop (length (conversationHistory s @ appended cs rs) - 16) (conversationHistory s @ appended cs rs))"
proof -
  let ?full = "conversationHistory s @ appended cs rs"
  let ?h2 = "conversationHistory s2"
  have l: "length ?h2 = min 16 (length ?full)"
    by (rule run_calls_length [OF run len])
  then have k: "length ?full - length ?h2 = length ?full - 16" by simp
  have a: "list_all2 aged (drop (length ?full - 16) ?full) ?h2"
    using run_calls_aged [OF run] by (simp only: k)
  have "?h2 = drop (length ?full - 16) ?full" if "list_all no_inline ?full"
  proof -
    have "list_all no_inline (drop (length ?full - 16) ?full)"
      using that by (auto simp: list_all_iff dest: in_set_dropD)
    with a show ?thesis by (rule list_all2_aged_no_inline)
  qed
  with l a show ?thesis by simp
qed

text \<open>Nine text turns on a new session: turns 2 to 9 remain, oldest first.\<close>

theorem history_cap_witness:
  "length (conversationHistory demo_session) \<le> 16
   \<and> map parts (conversationHistory (fst (snd (run_calls demo_session demo_world nine_calls))))
       = map (\<lambda>t. [TextPart t])
           [''q2'', ''a2'', ''q3'', ''a3'', ''q4'', ''a4'', ''q5'', ''a5'',
            ''q6'', ''a6'', ''q7'', ''a7'', ''q8'', ''a8'', ''q9'', ''a9'']"
proof -
  obtain rs s2 w2 where run: "run_calls demo_session demo_world nine_calls = (rs, s2, w2)"
    by (cases "run_calls demo_session demo_world nine_calls")
  have len: "length (conversationHistory demo_session) \<le> 16"
    by (simp add: demo_session_def new_session_def)
  have rs: "rs = map RetText [''a1'', ''a2'', ''a3'', ''a4'', ''a5'', ''a6'', ''a7'', ''a8'', ''a9'']"
    using nine_calls_rets run by simp
  have full: "conversationHistory demo_session @ appended nine_calls rs
     = map (\<lambda>(r, t). \<lparr>role = r, parts = [TextPart t]\<rparr>)
        [(User, ''q1''), (Model, ''a1''), (User, ''q2''), (Model, ''a2''), (User, ''q3''), (Model, ''a3''),
         (User, ''q4''), (Model, ''a4''), (User, ''q5''), (Model, ''a5''), (User, ''q6''), (Model, ''a6''),
         (User, ''q7''), (Model, ''a7''), (User, ''q8''), (Model, ''a8''), (User, ''q9''), (Model, ''a9'')]"
    by (simp add: rs nine_calls_def text_call_def demo_env_def demo_session_def new_session_def
        turn_entries_def build_parts_def truthy_text_def has_media_def)
  from history_cap_oldest_first [OF run len] show ?thesis
    by (simp add: full run len no_inline_def)
qed

subsection \<open>Closed sessions\<close>

lemma send_closed:
  "isClosed s \<Longrightarrow> sendRealtimeInput e backend s w input = (RetUndefined, s, w)"
  by (simp add: sendRealtimeInput_def)

lemma run_calls_closed:
  "isClosed s \<Longrightarrow> run_calls s w cs = (replicate (length cs) RetUndefined, s, w)"
  by (induction cs) (auto simp: send_closed)

text \<open>
  C3. Once \<^verbatim>\<open>close()\<close> has run, every later call of \<^verbatim>\<open>sendRealtimeInput\<close>, whatever
  its input and whatever the backend would do, returns (with \<^verbatim>\<open>undefined\<close>) without
  throwing, and leaves the session (history and every other field) and the world outside
  it (requests issued, messages sent, countdown) as they were.
\<close>

theorem closed_session_ignores_input:
  "run_calls (fst (close s w0)) w cs
     = (replicate (length cs) RetUndefined, fst (close s w0), w)"
  by (rule run_calls_closed) (simp add: close_def)

subsection \<open>History: cap on screenshots\<close>

lemma placeholder_not_inline: "\<not> is_inline (placeholder p)"
  by (cases p) (simp_all add: placeholder_def)

lemma strip_entry_no_image: "\<not> image_turn (strip_entry en)"
  by (simp add: image_turn_def strip_entry_def list_ex_iff placeholder_not_inline)

lemma strip_entry_role: "role (strip_entry en) = role en"
  by (simp add: strip_entry_def)

lemma strip_entry_explicit:
  "image_turn en \<Longrightarrow>
     strip_entry en
       = \<lparr>role = User, parts = map (\<lambda>p. if is_inline p then TextPart ''[screenshot]'' else p) (parts en)\<rparr>"
  by (cases en) (simp add: strip_entry_def image_turn_def placeholder_def)

lemma model_entry_no_image: "\<not> image_turn (model_entry t)"
  by (simp add: image_turn_def model_entry_def)

lemma user_entry_image: "image_turn (user_entry e input) = has_media input"
  by (auto simp: image_turn_def user_entry_def build_parts_def has_media_def media_part_def Let_def
      split: option.splits)

lemma turn_entries_eq: "turn_entries e input t = [user_entry e input, model_entry t]"
  by (simp add: turn_entries_def user_entry_def model_entry_def)

text \<open>The loop, entry by entry: what it does to an entry depends on the images met before it.\<close>

lemma strip_loop_length: "length (strip_loop c xs) = length xs"
  by (induction xs arbitrary: c) simp_all

lemma strip_loop_nth:
  "i < length xs \<Longrightarrow>
     strip_loop c xs ! i
       = (if image_turn (xs ! i) \<and> 3 \<le> c + length (filter image_turn (take i xs))
          then strip_entry (xs ! i) else xs ! i)"
proof (induction xs arbitrary: c i)
  case Nil
  then show ?case by simp
next
  case (Cons x xs)
  show ?case
  proof (cases i)
    case 0
    then show ?thesis by auto
  next
    case (Suc j)
    then have j: "j < length xs" using Cons.prems by simp
    show ?thesis
      using Cons.IH [OF j, of "c + 1"] Cons.IH [OF j, of c] by (simp add: Suc)
  qed
qed

lemma strip_loop_append:
  "strip_loop c (xs @ ys) = strip_loop c xs @ strip_loop (c + length (filter image_turn xs)) ys"
  by (induction xs arbitrary: c) simp_all

lemma strip_loop_saturated: "3 \<le> c \<Longrightarrow> strip_loop c xs = strip_loop 3 xs"
proof (induction xs arbitrary: c)
  case Nil
  then show ?case by simp
next
  case (Cons x xs)
  have "strip_loop (c + 1) xs = strip_loop 3 xs" "strip_loop (3 + 1) xs = strip_loop 3 xs"
    using Cons.prems by (auto intro: Cons.IH)
  with Cons.prems Cons.IH [of c] show ?case by simp
qed

lemma strip_loop_again: "c' \<le> c \<Longrightarrow> strip_loop c (strip_loop c' xs) = strip_loop c xs"
proof (induction xs arbitrary: c c')
  case Nil
  then show ?case by simp
next
  case (Cons x xs)
  show ?case
  proof (cases "image_turn x")
    case False
    with Cons show ?thesis by simp
  next
    case True
    show ?thesis
    proof (cases "3 \<le> c'")
      case True
      then have c: "3 \<le> c" using Cons.prems by simp
      have a: "strip_loop c (strip_loop (c' + 1) xs) = strip_loop 3 (strip_loop 3 xs)"
        using strip_loop_saturated [OF c] strip_loop_saturated [of "c' + 1" xs] True by simp
      have b: "strip_loop (c + 1) xs = strip_loop 3 xs"
        using strip_loop_saturated [of "c + 1" xs] c by simp
      have "strip_loop 3 (strip_loop 3 xs) = strip_loop 3 xs"
        by (rule Cons.IH) simp
      with a b True c \<open>image_turn x\<close> show ?thesis
        by (simp add: strip_entry_no_image)
    next
      case False
      have "strip_loop (c + 1) (strip_loop (c' + 1) xs) = strip_loop (c + 1) xs"
        using Cons.prems by (intro Cons.IH) simp
      with False \<open>image_turn x\<close> show ?thesis by simp
    qed
  qed
qed

lemma strip_loop_few: "c + length (filter image_turn xs) \<le> 3 \<Longrightarrow> strip_loop c xs = xs"
  by (induction xs arbitrary: c) auto

lemma strip_loop_filter:
  "filter image_turn (strip_loop c xs) = take (3 - c) (filter image_turn xs)"
proof (induction xs arbitrary: c)
  case Nil
  then show ?case by simp
next
  case (Cons x xs)
  show ?case
  proof (cases "image_turn x \<and> c < 3")
    case True
    then have "3 - c = Suc (3 - (c + 1))" by arith
    with True Cons.IH [of "c + 1"] show ?thesis by simp
  next
    case False
    with Cons.IH [of "c + 1"] Cons.IH [of c] show ?thesis
      by (auto simp: strip_entry_no_image)
  qed
qed

lemma strip_loop_role: "map role (strip_loop c xs) = map role xs"
  by (induction xs arbitrary: c) (simp_all add: strip_entry_role)

lemma strip_loop_replaced:
  "length (filter (\<lambda>(pushed, kept). image_turn pushed \<and> \<not> image_turn kept) (zip xs (strip_loop c xs)))
     = length (filter image_turn xs) - (3 - c)"
proof (induction xs arbitrary: c)
  case Nil
  then show ?case by simp
next
  case (Cons x xs)
  show ?case
    using Cons.IH [of "c + 1"] Cons.IH [of c]
    by (auto simp: strip_entry_no_image Suc_diff_le)
qed

text \<open>The same facts for the history read from the oldest entry.\<close>

lemma strip_old_images_nth:
  assumes i: "i < length h"
  shows "strip_old_images h ! i
           = (if image_turn (h ! i) \<and> 3 \<le> newer_images h i then strip_entry (h ! i) else h ! i)"
proof -
  let ?n = "length h"
  have k: "?n - Suc i < length (rev h)" using i by simp
  have a: "rev h ! (?n - Suc i) = h ! i"
    using i by (simp add: rev_nth)
  have b: "take (?n - Suc i) (rev h) = rev (drop (Suc i) h)"
    using i by (simp add: take_rev)
  have "strip_old_images h ! i = strip_loop 0 (rev h) ! (?n - Suc i)"
    using i by (simp add: strip_old_images_def rev_nth strip_loop_length)
  also have "\<dots> = (if image_turn (h ! i) \<and> 3 \<le> newer_images h i then strip_entry (h ! i) else h ! i)"
    by (simp only: strip_loop_nth [OF k] a b newer_images_def) (simp add: rev_filter [symmetric])
  finally show ?thesis .
qed

lemma strip_old_images_filter:
  "filter image_turn (strip_old_images h)
     = drop (length (filter image_turn h) - 3) (filter image_turn h)"
proof -
  have "filter image_turn (strip_old_images h) = rev (take 3 (rev (filter image_turn h)))"
    by (simp add: strip_old_images_def rev_filter [symmetric] strip_loop_filter)
  also have "\<dots> = drop (length (filter image_turn h) - 3) (filter image_turn h)"
    by (simp add: rev_take)
  finally show ?thesis .
qed

lemma strip_old_images_role: "map role (strip_old_images h) = map role h"
  by (simp add: strip_old_images_def rev_map [symmetric] strip_loop_role)

lemma strip_old_images_replaced:
  "length (filter (\<lambda>(pushed, kept). image_turn pushed \<and> \<not> image_turn kept) (zip h (strip_old_images h)))
     = length (filter image_turn h) - 3"
proof -
  let ?P = "\<lambda>(pushed, kept). image_turn pushed \<and> \<not> image_turn kept"
  have "zip h (strip_old_images h) = rev (zip (rev h) (strip_loop 0 (rev h)))"
    using zip_rev [of "rev h" "strip_loop 0 (rev h)"]
    by (simp add: strip_old_images_def strip_loop_length)
  then have "length (filter ?P (zip h (strip_old_images h)))
               = length (filter ?P (zip (rev h) (strip_loop 0 (rev h))))"
    by (simp add: rev_filter [symmetric])
  also have "\<dots> = length (filter image_turn (rev h)) - 3"
    using strip_loop_replaced [of "rev h" 0] by simp
  finally show ?thesis by (simp add: rev_filter [symmetric])
qed

lemma strip_old_images_few:
  "length (filter image_turn h) \<le> 3 \<Longrightarrow> strip_old_images h = h"
  by (simp add: strip_old_images_def strip_loop_few rev_filter [symmetric])

lemma strip_old_images_append:
  "strip_old_images (h @ t)
     = rev (strip_loop (length (filter image_turn t)) (rev h)) @ strip_old_images t"
  by (simp add: strip_old_images_def strip_loop_append rev_filter [symmetric])

lemma strip_old_images_drop: "strip_old_images (drop k h) = drop k (strip_old_images h)"
proof -
  have "strip_old_images h = strip_old_images (take k h @ drop k h)" by simp
  also have "\<dots> = rev (strip_loop (length (filter image_turn (drop k h))) (rev (take k h)))
                      @ strip_old_images (drop k h)"
    by (rule strip_old_images_append)
  finally have "drop k (strip_old_images h)
      = drop k (rev (strip_loop (length (filter image_turn (drop k h))) (rev (take k h)))
                  @ strip_old_images (drop k h))"
    by simp
  also have "\<dots> = strip_old_images (drop k h)"
    by (cases "k \<le> length h") (simp_all add: strip_loop_length strip_old_images_def min_def)
  finally show ?thesis by simp
qed

lemma strip_old_images_absorb:
  "strip_old_images (strip_old_images h @ t) = strip_old_images (h @ t)"
  by (simp add: strip_old_images_append) (simp add: strip_old_images_def strip_loop_again)

lemma strip_old_images_idem: "strip_old_images (strip_old_images h) = strip_old_images h"
  using strip_old_images_absorb [of h "[]"] by simp

text \<open>The history after a run: the last 16 entries pushed, passed once through the loop.\<close>

lemma commit_then_rest:
  assumes len: "length h \<le> 16"
  shows "strip_old_images
           (drop (length (strip_old_images (cap_turns (h @ T)) @ A) - 16)
              (strip_old_images (cap_turns (h @ T)) @ A))
       = strip_old_images (drop (length (h @ T @ A) - 16) (h @ T @ A))"
proof -
  let ?j = "length (h @ T) - 16"
  let ?h1 = "strip_old_images (cap_turns (h @ T))"
  let ?k = "length (?h1 @ A) - 16"
  have h1: "?h1 = strip_old_images (drop ?j (h @ T))"
    by (simp only: cap_turns_drop)
  have l1: "length ?h1 = min 16 (length (h @ T))"
    by (simp only: length_strip_old_images length_cap_turns)
  have kj: "?k + ?j = length (h @ T @ A) - 16"
    using l1 by (simp add: min_def split: if_splits)
  have "strip_old_images (drop ?k (?h1 @ A)) = drop ?k (strip_old_images (?h1 @ A))"
    by (rule strip_old_images_drop)
  also have "strip_old_images (?h1 @ A) = strip_old_images (drop ?j (h @ T) @ A)"
    by (simp only: h1 strip_old_images_absorb)
  also have "drop ?j (h @ T) @ A = drop ?j (h @ T @ A)"
    by simp
  also have "drop ?k (strip_old_images (drop ?j (h @ T @ A)))
               = strip_old_images (drop (?k + ?j) (h @ T @ A))"
    by (simp only: strip_old_images_drop drop_drop)
  finally show ?thesis by (simp only: kj)
qed

lemma run_calls_history:
  "run_calls s w cs = (rs, s2, w2) \<Longrightarrow> length (conversationHistory s) \<le> 16 \<Longrightarrow>
   strip_old_images (conversationHistory s) = conversationHistory s \<Longrightarrow>
     conversationHistory s2 = strip_old_images (last_pushed s cs rs)"
proof (induction cs arbitrary: s w rs)
  case Nil
  then show ?case by (simp add: last_pushed_def)
next
  case (Cons c cs)
  obtain e backend input where c: "c = (e, backend, input)" by (cases c)
  obtain r s1 w1 where step: "sendRealtimeInput e backend s w input = (r, s1, w1)"
    by (cases "sendRealtimeInput e backend s w input")
  obtain rs1 where rest: "run_calls s1 w1 cs = (rs1, s2, w2)" and rs: "rs = r # rs1"
    using Cons.prems(1) c step by (auto split: prod.splits)
  let ?h = "conversationHistory s" and ?A = "appended cs rs1"
  from send_history_cases [OF step] show ?case
  proof
    assume "\<exists>t. r = RetText t \<and> s1 = commit_turn (build_parts e input) t s"
    then obtain t where r: "r = RetText t" and s1: "s1 = commit_turn (build_parts e input) t s"
      by blast
    let ?T = "turn_entries e input t"
    have h1: "conversationHistory s1 = strip_old_images (cap_turns (?h @ ?T))"
      by (simp add: s1 commit_turn_history turn_entries_def)
    have l1: "length (conversationHistory s1) \<le> 16"
      by (simp add: h1 length_strip_old_images length_cap_turns)
    have f1: "strip_old_images (conversationHistory s1) = conversationHistory s1"
      by (simp only: h1 strip_old_images_idem)
    have "conversationHistory s2 = strip_old_images (last_pushed s1 cs rs1)"
      by (rule Cons.IH [OF rest l1 f1])
    also have "\<dots> = strip_old_images (drop (length (?h @ ?T @ ?A) - 16) (?h @ ?T @ ?A))"
      unfolding last_pushed_def h1 by (rule commit_then_rest [OF Cons.prems(2)])
    also have "?T @ ?A = appended (c # cs) rs"
      by (simp add: c rs r)
    finally show ?thesis by (simp only: last_pushed_def)
  next
    assume "(\<forall>t. r \<noteq> RetText t) \<and> s1 = s"
    then have s1: "s1 = s" and "appended (c # cs) rs = ?A"
      by (cases r; simp add: c rs)+
    with Cons.IH [OF rest] Cons.prems(2,3) show ?thesis by (simp add: last_pushed_def)
  qed
qed

text \<open>
  C4. Take any sequence of calls (text turns, image turns and failed calls in any order)
  on a session whose history has at most 16 entries and at most 3 image-bearing turns
  (a new session has none). Afterwards the history consists of the last 16 entries pushed,
  in the order and number in which they were pushed, with the same roles. An entry of them
  is changed exactly when it is an image-bearing user turn followed by three or more
  image-bearing turns: then each of its image parts is the text part \<open>[screenshot]\<close> and
  its other parts are as pushed. So the image-bearing turns of the history are the three
  most recent image-bearing turns pushed, as pushed (all of them when there are fewer),
  and every older one has lost its images: after five image-bearing turns three keep their
  image data and two have placeholders.
\<close>

theorem three_screenshots_kept:
  assumes run: "run_calls s w cs = (rs, s2, w2)"
    and len: "length (conversationHistory s) \<le> 16"
    and imgs: "length (filter image_turn (conversationHistory s)) \<le> 3"
  shows "conversationHistory s2
           = map (\<lambda>i. if image_turn (last_pushed s cs rs ! i) \<and> 3 \<le> newer_images (last_pushed s cs rs) i
                      then \<lparr>role = User,
                            parts = map (\<lambda>p. if is_inline p then TextPart ''[screenshot]'' else p)
                                      (parts (last_pushed s cs rs ! i))\<rparr>
                      else last_pushed s cs rs ! i)
               [0..<length (last_pushed s cs rs)]
       \<and> length (conversationHistory s2) = length (last_pushed s cs rs)
       \<and> map role (conversationHistory s2) = map role (last_pushed s cs rs)
       \<and> filter image_turn (conversationHistory s2)
           = drop (length (filter image_turn (last_pushed s cs rs)) - 3)
               (filter image_turn (last_pushed s cs rs))
       \<and> length (filter image_turn (conversationHistory s2))
           = min 3 (length (filter image_turn (last_pushed s cs rs)))
       \<and> length (filter (\<lambda>(pushed, kept). image_turn pushed \<and> \<not> image_turn kept)
                   (zip (last_pushed s cs rs) (conversationHistory s2)))
           = length (filter image_turn (last_pushed s cs rs)) - 3"
proof -
  let ?H = "last_pushed s cs rs"
  have h: "conversationHistory s2 = strip_old_images ?H"
    using run len by (rule run_calls_history) (rule strip_old_images_few [OF imgs])
  have e: "strip_old_images ?H
          = map (\<lambda>i. if image_turn (?H ! i) \<and> 3 \<le> newer_images ?H i
                     then \<lparr>role = User,
                           parts = map (\<lambda>p. if is_inline p then TextPart ''[screenshot]'' else p)
                                     (parts (?H ! i))\<rparr>
                     else ?H ! i)
              [0..<length ?H]"
    by (rule nth_equalityI)
       (simp_all add: length_strip_old_images strip_old_images_nth strip_entry_explicit)
  have 1: "conversationHistory s2
          = map (\<lambda>i. if image_turn (?H ! i) \<and> 3 \<le> newer_images ?H i
                     then \<lparr>role = User,
                           parts = map (\<lambda>p. if is_inline p then TextPart ''[screenshot]'' else p)
                                     (parts (?H ! i))\<rparr>
                     else ?H ! i)
              [0..<length ?H]"
    unfolding h by (rule e)
  have 2: "length (conversationHistory s2) = length ?H"
    by (simp only: h length_strip_old_images)
  have 3: "map role (conversationHistory s2) = map role ?H"
    by (simp only: h strip_old_images_role)
  have 4: "filter image_turn (conversationHistory s2)
             = drop (length (filter image_turn ?H) - 3) (filter image_turn ?H)"
    by (simp only: h strip_old_images_filter)
  have 5: "length (filter image_turn (conversationHistory s2)) = min 3 (length (filter image_turn ?H))"
    by (simp only: 4) simp
  have 6: "length (filter (\<lambda>(pushed, kept). image_turn pushed \<and> \<not> image_turn kept)
                     (zip ?H (conversationHistory s2)))
             = length (filter image_turn ?H) - 3"
    by (simp only: h strip_old_images_replaced)
  show ?thesis
    by (intro conjI) (rule 1 2 3 4 5 6)+
qed

lemma five_image_calls_rets:
  "fst (run_calls demo_session demo_world five_image_calls)
     = map RetText [''a1'', ''a2'', ''a3'', ''a4'', ''a5'']"
  by (simp add: five_image_calls_def image_call_def demo_env_def demo_session_def demo_world_def
      answers_def new_session_def sendRealtimeInput_def try_body_def truthy_text_def has_media_def
      build_parts_def collect_texts_def has_response_def js_trim_def is_space_def ready_status_def
      sendToRenderer_def commit_turn_isClosed Let_def split: prod.splits)

lemma mixed_calls_rets:
  "fst (run_calls demo_session demo_world mixed_calls)
     = map RetText [''a1'', ''a2'', ''a3'', ''a4'', ''a5'', ''a6'', ''a7'']"
  by (simp add: mixed_calls_def image_call_def text_call_def demo_env_def demo_session_def demo_world_def
      answers_def new_session_def sendRealtimeInput_def try_body_def truthy_text_def has_media_def
      build_parts_def collect_texts_def has_response_def js_trim_def is_space_def ready_status_def
      sendToRenderer_def commit_turn_isClosed Let_def split: prod.splits)

text \<open>
  Seven turns on a new session, the five screenshots among them separated by text turns:
  the screenshots of turns 1 and 3 become placeholders, those of turns 4, 6 and 7 stay.
  And five screenshots in a row: the first two become placeholders.
\<close>

theorem three_screenshots_kept_witness:
  "length (conversationHistory demo_session) \<le> 16
   \<and> length (filter image_turn (conversationHistory demo_session)) \<le> 3
   \<and> map parts (conversationHistory (fst (snd (run_calls demo_session demo_world mixed_calls))))
       = [[TextPart ''[screenshot]''], [TextPart ''a1''], [TextPart ''q2''], [TextPart ''a2''],
          [TextPart ''[screenshot]''], [TextPart ''a3''],
          [InlineData ''image/jpeg'' ''img4''], [TextPart ''a4''], [TextPart ''q5''], [TextPart ''a5''],
          [InlineData ''image/jpeg'' ''img6''], [TextPart ''a6''],
          [InlineData ''image/jpeg'' ''img7''], [TextPart ''a7'']]
   \<and> map parts (conversationHistory (fst (snd (run_calls demo_session demo_world five_image_calls))))
       = [[TextPart ''[screenshot]''], [TextPart ''a1''], [TextPart ''[screenshot]''], [TextPart ''a2''],
          [InlineData ''image/jpeg'' ''img3''], [TextPart ''a3''],
          [InlineData ''image/jpeg'' ''img4''], [TextPart ''a4''],
          [InlineData ''image/jpeg'' ''img5''], [TextPart ''a5'']]"
proof -
  have len: "length (conversationHistory demo_session) \<le> 16"
    and imgs: "length (filter image_turn (conversationHistory demo_session)) \<le> 3"
    by (simp_all add: demo_session_def new_session_def)
  obtain rs s2 w2 where run: "run_calls demo_session demo_world mixed_calls = (rs, s2, w2)"
    by (cases "run_calls demo_session demo_world mixed_calls")
  have rs: "rs = map RetText [''a1'', ''a2'', ''a3'', ''a4'', ''a5'', ''a6'', ''a7'']"
    using mixed_calls_rets run by simp
  have pushed: "last_pushed demo_session mixed_calls rs
     = map (\<lambda>(r, p). \<lparr>role = r, parts = [p]\<rparr>)
        [(User, InlineData ''image/jpeg'' ''img1''), (Model, TextPart ''a1''),
         (User, TextPart ''q2''), (Model, TextPart ''a2''),
         (User, InlineData ''image/jpeg'' ''img3''), (Model, TextPart ''a3''),
         (User, InlineData ''image/jpeg'' ''img4''), (Model, TextPart ''a4''),
         (User, TextPart ''q5''), (Model, TextPart ''a5''),
         (User, InlineData ''image/jpeg'' ''img6''), (Model, TextPart ''a6''),
         (User, InlineData ''image/jpeg'' ''img7''), (Model, TextPart ''a7'')]"
    by (simp add: last_pushed_def rs mixed_calls_def image_call_def text_call_def demo_env_def
        demo_session_def new_session_def turn_entries_def build_parts_def truthy_text_def
        has_media_def media_part_def)
  obtain rs' s5 w5 where run': "run_calls demo_session demo_world five_image_calls = (rs', s5, w5)"
    by (cases "run_calls demo_session demo_world five_image_calls")
  have rs': "rs' = map RetText [''a1'', ''a2'', ''a3'', ''a4'', ''a5'']"
    using five_image_calls_rets run' by simp
  have pushed': "last_pushed demo_session five_image_calls rs'
     = map (\<lambda>(r, p). \<lparr>role = r, parts = [p]\<rparr>)
        [(User, InlineData ''image/jpeg'' ''img1''), (Model, TextPart ''a1''),
         (User, InlineData ''image/jpeg'' ''img2''), (Model, TextPart ''a2''),
         (User, InlineData ''image/jpeg'' ''img3''), (Model, TextPart ''a3''),
         (User, InlineData ''image/jpeg'' ''img4''), (Model, TextPart ''a4''),
         (User, InlineData ''image/jpeg'' ''img5''), (Model, TextPart ''a5'')]"
    by (simp add: last_pushed_def rs' five_image_calls_def image_call_def demo_env_def
        demo_session_def new_session_def turn_entries_def build_parts_def truthy_text_def
        has_media_def media_part_def)
  have a: "map parts (conversationHistory s2)
       = [[TextPart ''[screenshot]''], [TextPart ''a1''], [TextPart ''q2''], [TextPart ''a2''],
          [TextPart ''[screenshot]''], [TextPart ''a3''],
          [InlineData ''image/jpeg'' ''img4''], [TextPart ''a4''], [TextPart ''q5''], [TextPart ''a5''],
          [InlineData ''image/jpeg'' ''img6''], [TextPart ''a6''],
          [InlineData ''image/jpeg'' ''img7''], [TextPart ''a7'']]"
    using three_screenshots_kept [OF run len imgs]
    by (simp add: pushed image_turn_def newer_images_def)
  have b: "map parts (conversationHistory s5)
       = [[TextPart ''[screenshot]''], [TextPart ''a1''], [TextPart ''[screenshot]''], [TextPart ''a2''],
          [InlineData ''image/jpeg'' ''img3''], [TextPart ''a3''],
          [InlineData ''image/jpeg'' ''img4''], [TextPart ''a4''],
          [InlineData ''image/jpeg'' ''img5''], [TextPart ''a5'']]"
    using three_screenshots_kept [OF run' len imgs]
    by (simp add: pushed' image_turn_def newer_images_def)
  from len imgs a b show ?thesis
    by (simp add: run run')
qed

subsection \<open>Errors of the backend\<close>

text \<open>
  C2 as stated does not hold: a stream that throws after it has delivered text is an error
  raised by the backend streaming call, yet the call returns that text (not
  \<^verbatim>\<open>null\<close>) and pushes the turn. The fallback branch of the inner
  \<^verbatim>\<open>catch\<close> does this on purpose.
\<close>

theorem stream_error_with_text_counterexample:
  "fst (sendRealtimeInput demo_env broken_stream demo_session demo_world hi_input) = RetText ''Hello''
   \<and> conversationHistory (fst (snd (sendRealtimeInput demo_env broken_stream demo_session demo_world hi_input)))
       = [\<lparr>role = User, parts = [TextPart ''hi'']\<rparr>, \<lparr>role = Model, parts = [TextPart ''Hello'']\<rparr>]
   \<and> conversationHistory demo_session = []
   \<and> broken_stream (build_request demo_env demo_session hi_input)
       = Stream [[''Hello'']] (StreamError ''socket hang up'') []"
  by (simp add: sendRealtimeInput_def try_body_def broken_stream_def hi_input_def demo_env_def
      demo_session_def demo_world_def new_session_def truthy_text_def has_media_def build_parts_def
      collect_texts_def has_response_def js_trim_def is_space_def commit_turn_def cap_turns_def
      strip_old_images_def image_turn_def Let_def)

text \<open>
  C2, amended. On an open session nothing the backend throws leaves
  \<^verbatim>\<open>sendRealtimeInput\<close>: what the \<^verbatim>\<open>try\<close> body throws becomes the result
  \<^verbatim>\<open>null\<close>. When the request fails (it is rejected, or the stream throws and neither
  the stream nor the fallback result has given non-blank text), the call returns
  \<^verbatim>\<open>null\<close> and the session, its history included, is unchanged. Every call that
  returns \<^verbatim>\<open>null\<close> leaves the session unchanged, and the session changes only by
  pushing the turn of a call that returns a non-blank response text. For an input with
  text or media: when the stream throws and the text of the chunks received, followed by
  the text of the fallback result, is non-blank, the call returns exactly that text and
  pushes the turn with it; when the stream ends normally, the call returns the text of the
  chunks and pushes the turn if that text is non-blank, and returns \<^verbatim>\<open>null\<close> with
  the session unchanged otherwise. For an input with neither text nor media the call
  returns \<^verbatim>\<open>null\<close> and touches nothing.
\<close>

theorem failed_call_returns_null:
  assumes op: "\<not> isClosed s"
  shows "(fst (try_body e backend s w input) = Threw msg \<longrightarrow>
            fst (sendRealtimeInput e backend s w input) = RetNull)
       \<and> (request_fails (backend (build_request e s input)) \<longrightarrow>
            fst (sendRealtimeInput e backend s w input) = RetNull
            \<and> fst (snd (sendRealtimeInput e backend s w input)) = s)
       \<and> (fst (sendRealtimeInput e backend s w input) = RetNull \<longrightarrow>
            fst (snd (sendRealtimeInput e backend s w input)) = s)
       \<and> (fst (snd (sendRealtimeInput e backend s w input)) \<noteq> s \<longrightarrow>
            (\<exists>t. has_response t \<and> fst (sendRealtimeInput e backend s w input) = RetText t
                 \<and> fst (snd (sendRealtimeInput e backend s w input)) = commit_turn (build_parts e input) t s))
       \<and> (has_media input \<or> truthy_text input \<longrightarrow>
            backend (build_request e s input) = Stream chunks (StreamError err) fallback \<longrightarrow>
            has_response (stream_text chunks fallback) \<longrightarrow>
              fst (sendRealtimeInput e backend s w input) = RetText (stream_text chunks fallback)
              \<and> fst (snd (sendRealtimeInput e backend s w input))
                  = commit_turn (build_parts e input) (stream_text chunks fallback) s)
       \<and> (has_media input \<or> truthy_text input \<longrightarrow>
            backend (build_request e s input) = Stream received StreamDone final \<longrightarrow>
              (if has_response (concat (map collect_texts received))
               then fst (sendRealtimeInput e backend s w input) = RetText (concat (map collect_texts received))
                    \<and> fst (snd (sendRealtimeInput e backend s w input))
                        = commit_turn (build_parts e input) (concat (map collect_texts received)) s
               else fst (sendRealtimeInput e backend s w input) = RetNull
                    \<and> fst (snd (sendRealtimeInput e backend s w input)) = s))
       \<and> (\<not> (has_media input \<or> truthy_text input) \<longrightarrow>
            sendRealtimeInput e backend s w input = (RetNull, s, w))"
  using op
  by (auto simp: sendRealtimeInput_def try_body_def request_fails_def stream_text_def Let_def
      split: backend_outcome.splits stream_end.splits)

theorem failed_call_returns_null_witness:
  "\<not> isClosed demo_session
   \<and> request_fails (rejecting (build_request demo_env demo_session hi_input))
   \<and> fst (try_body demo_env rejecting demo_session demo_world hi_input) = Threw ''429 RESOURCE_EXHAUSTED''
   \<and> fst (sendRealtimeInput demo_env rejecting demo_session demo_world hi_input) = RetNull
   \<and> fst (snd (sendRealtimeInput demo_env rejecting demo_session demo_world hi_input)) = demo_session
   \<and> fst (snd (sendRealtimeInput demo_env broken_stream demo_session demo_world hi_input)) \<noteq> demo_session
   \<and> fst (snd (sendRealtimeInput demo_env broken_stream demo_session demo_world hi_input))
       = commit_turn (build_parts demo_env hi_input) ''Hello'' demo_session
   \<and> truthy_text hi_input
   \<and> has_response (stream_text [[''Hello'']] [])
   \<and> fst (sendRealtimeInput demo_env broken_stream demo_session demo_world hi_input) = RetText ''Hello''
   \<and> answers ''Hi'' (build_request demo_env demo_session hi_input) = Stream [[''Hi'']] StreamDone []
   \<and> fst (sendRealtimeInput demo_env (answers ''Hi'') demo_session demo_world hi_input) = RetText ''Hi''
   \<and> fst (snd (sendRealtimeInput demo_env (answers ''Hi'') demo_session demo_world hi_input))
       = commit_turn (build_parts demo_env hi_input) ''Hi'' demo_session
   \<and> \<not> (has_media \<lparr>input_text = None, input_media = None\<rparr>
          \<or> truthy_text \<lparr>input_text = None, input_media = None\<rparr>)
   \<and> sendRealtimeInput demo_env rejecting demo_session demo_world \<lparr>input_text = None, input_media = None\<rparr>
       = (RetNull, demo_session, demo_world)"
proof -
  have op: "\<not> isClosed demo_session"
    by (simp add: demo_session_def new_session_def)
  have f: "request_fails (rejecting (build_request demo_env demo_session hi_input))"
    by (simp add: request_fails_def rejecting_def)
  have t: "fst (try_body demo_env rejecting demo_session demo_world hi_input) = Threw ''429 RESOURCE_EXHAUSTED''"
    by (simp add: try_body_def rejecting_def hi_input_def truthy_text_def has_media_def Let_def)
  have c: "fst (snd (sendRealtimeInput demo_env broken_stream demo_session demo_world hi_input)) \<noteq> demo_session"
    by (simp add: sendRealtimeInput_def try_body_def broken_stream_def hi_input_def demo_env_def
      demo_session_def demo_world_def new_session_def truthy_text_def has_media_def build_parts_def
      collect_texts_def has_response_def js_trim_def is_space_def commit_turn_def cap_turns_def
      strip_old_images_def image_turn_def Let_def)
  have tt: "truthy_text hi_input"
    by (simp add: truthy_text_def hi_input_def)
  have st: "stream_text [[''Hello'']] [] = ''Hello''"
    by (simp add: stream_text_def collect_texts_def)
  have hr: "has_response ''Hello''" "has_response ''Hi''"
    by (simp_all add: has_response_def js_trim_def is_space_def)
  have ct: "concat (map collect_texts [[''Hi'']]) = ''Hi''"
    by (simp add: collect_texts_def)
  have bs: "broken_stream (build_request demo_env demo_session hi_input)
              = Stream [[''Hello'']] (StreamError ''socket hang up'') []"
    by (simp add: broken_stream_def)
  have an: "answers ''Hi'' (build_request demo_env demo_session hi_input) = Stream [[''Hi'']] StreamDone []"
    by (simp add: answers_def)
  have no: "\<not> (has_media \<lparr>input_text = None, input_media = None\<rparr>
          \<or> truthy_text \<lparr>input_text = None, input_media = None\<rparr>)"
    by (simp add: has_media_def truthy_text_def)
  note r = failed_call_returns_null [where e = demo_env and backend = rejecting and input = hi_input
         and w = demo_world and msg = "''429 RESOURCE_EXHAUSTED''", OF op]
  note b = failed_call_returns_null [where e = demo_env and backend = broken_stream and input = hi_input
         and w = demo_world and chunks = "[[''Hello'']]" and err = "''socket hang up''"
         and fallback = "[]", OF op]
  note a = failed_call_returns_null [where e = demo_env and backend = "answers ''Hi''" and input = hi_input
         and w = demo_world and received = "[[''Hi'']]" and final = "[]", OF op]
  note n = failed_call_returns_null [where e = demo_env and backend = rejecting
         and input = "\<lparr>input_text = None, input_media = None\<rparr>" and w = demo_world, OF op]
  from r f t have 1: "fst (sendRealtimeInput demo_env rejecting demo_session demo_world hi_input) = RetNull"
    "fst (snd (sendRealtimeInput demo_env rejecting demo_session demo_world hi_input)) = demo_session"
    by blast+
  from b tt bs hr st have 2:
    "fst (sendRealtimeInput demo_env broken_stream demo_session demo_world hi_input) = RetText ''Hello''"
    "fst (snd (sendRealtimeInput demo_env broken_stream demo_session demo_world hi_input))
       = commit_turn (build_parts demo_env hi_input) ''Hello'' demo_session"
    by simp_all
  from a tt an hr ct have 3:
    "fst (sendRealtimeInput demo_env (answers ''Hi'') demo_session demo_world hi_input) = RetText ''Hi''"
    "fst (snd (sendRealtimeInput demo_env (answers ''Hi'') demo_session demo_world hi_input))
       = commit_turn (build_parts demo_env hi_input) ''Hi'' demo_session"
    by simp_all
  from n no have 4: "sendRealtimeInput demo_env rejecting demo_session demo_world
      \<lparr>input_text = None, input_media = None\<rparr> = (RetNull, demo_session, demo_world)"
    by blast
  from op f t c tt hr st an no 1 2 3 4 show ?thesis
    by (simp only: simp_thms)
qed

subsection \<open>Rate-limit countdown\<close>












lemma world_same: "w\<lparr>sent := sent w, countdown := countdown w\<rparr> = w"
  by simp






subsection \<open>The PCM framer\<close>

lemma CHUNK_SIZE_val: "CHUNK_SIZE = 9600"
  by (simp add: CHUNK_SIZE_def SAMPLE_RATE_def BYTES_PER_SAMPLE_def CHANNELS_def)

lemma maxBufferSize_val: "maxBufferSize = 48000"
  by (simp add: maxBufferSize_def SAMPLE_RATE_def BYTES_PER_SAMPLE_def)

lemma frame_loop_short: "length xs < CHUNK_SIZE \<Longrightarrow> frame_loop xs = ([], xs)"
  by (subst frame_loop.simps) simp

lemma frame_loop_step:
  "CHUNK_SIZE \<le> length xs \<Longrightarrow>
     frame_loop xs = (take CHUNK_SIZE xs # fst (frame_loop (drop CHUNK_SIZE xs)),
                      snd (frame_loop (drop CHUNK_SIZE xs)))"
  by (subst frame_loop.simps) (simp add: case_prod_unfold)

lemma frame_loop_rest_short: "length (snd (frame_loop xs)) < CHUNK_SIZE"
proof (induction xs rule: frame_loop.induct)
  case (1 xs)
  show ?case
  proof (cases "length xs \<ge> CHUNK_SIZE")
    case True
    with 1 show ?thesis by (simp add: frame_loop_step)
  next
    case False
    then show ?thesis by (simp add: frame_loop_short)
  qed
qed

lemma frame_loop_keeps_bytes: "concat (fst (frame_loop xs)) @ snd (frame_loop xs) = xs"
proof (induction xs rule: frame_loop.induct)
  case (1 xs)
  show ?case
  proof (cases "length xs \<ge> CHUNK_SIZE")
    case True
    with 1 have "concat (fst (frame_loop (drop CHUNK_SIZE xs))) @ snd (frame_loop (drop CHUNK_SIZE xs))
                   = drop CHUNK_SIZE xs" by simp
    with True show ?thesis by (simp add: frame_loop_step)
  next
    case False
    then show ?thesis by (simp add: frame_loop_short)
  qed
qed

lemma frame_loop_frame_size: "list_all (\<lambda>f. length f = CHUNK_SIZE) (fst (frame_loop xs))"
proof (induction xs rule: frame_loop.induct)
  case (1 xs)
  show ?case
  proof (cases "length xs \<ge> CHUNK_SIZE")
    case True
    with 1 show ?thesis by (simp add: frame_loop_step)
  next
    case False
    then show ?thesis by (simp add: frame_loop_short)
  qed
qed

lemma frame_loop_append:
  "frame_loop (xs @ ys)
     = (fst (frame_loop xs) @ fst (frame_loop (snd (frame_loop xs) @ ys)),
        snd (frame_loop (snd (frame_loop xs) @ ys)))"
proof (induction xs rule: frame_loop.induct)
  case (1 xs)
  show ?case
  proof (cases "length xs \<ge> CHUNK_SIZE")
    case True
    then have "CHUNK_SIZE \<le> length (xs @ ys)" by simp
    from frame_loop_step [OF this] True have b: "frame_loop (xs @ ys)
        = (take CHUNK_SIZE xs # fst (frame_loop (drop CHUNK_SIZE xs @ ys)),
           snd (frame_loop (drop CHUNK_SIZE xs @ ys)))"
      by simp
    from 1 [OF True] show ?thesis
      by (simp add: frame_loop_step [OF True] b)
  next
    case False
    then show ?thesis by (simp add: frame_loop_short)
  qed
qed

lemma no_overflow_after_loop: "\<not> overflow (snd (frame_loop xs))"
  using frame_loop_rest_short [of xs] by (simp add: overflow_def CHUNK_SIZE_val maxBufferSize_val)

lemma on_data_frame_loop: "on_data buf incoming = frame_loop (buf @ incoming)"
  using no_overflow_after_loop [of "buf @ incoming"] by (simp add: on_data_def case_prod_unfold)

lemma feed_frame_loop: "length buf < CHUNK_SIZE \<Longrightarrow> feed buf ds = frame_loop (buf @ concat ds)"
proof (induction ds arbitrary: buf)
  case Nil
  then show ?case by (simp add: frame_loop_short)
next
  case (Cons d ds)
  have "length (snd (frame_loop (buf @ d))) < CHUNK_SIZE"
    by (rule frame_loop_rest_short)
  from Cons.IH [OF this] show ?case
    using frame_loop_append [of "buf @ d" "concat ds"]
    by (simp add: on_data_frame_loop case_prod_unfold)
qed

text \<open>
  C5. Starting from the empty buffer, feeding a byte sequence to the handler piece by
  piece, for any way of cutting it into pieces, emits the same chunks in the same order
  (and leaves the same residual buffer) as feeding all of it in one event. Every chunk has
  the frame size, 9600 bytes.
\<close>

theorem framing_independent_of_chunking:
  "feed [] pieces = on_data [] (concat pieces)
   \<and> list_all (\<lambda>f. length f = CHUNK_SIZE) (fst (feed [] pieces))
   \<and> CHUNK_SIZE = 9600"
proof -
  have "length ([] :: byte list) < CHUNK_SIZE" by (simp add: CHUNK_SIZE_val)
  then have "feed [] pieces = frame_loop ([] @ concat pieces)" by (rule feed_frame_loop)
  then have f: "feed [] pieces = frame_loop (concat pieces)" by simp
  have "on_data [] (concat pieces) = frame_loop (concat pieces)"
    by (simp add: on_data_frame_loop)
  with f frame_loop_frame_size [of "concat pieces"] CHUNK_SIZE_val show ?thesis
    by simp
qed

text \<open>
  C10. After any \<^verbatim>\<open>data\<close> event, whatever the buffer held before, the buffer holds
  fewer than 9600 bytes. The buffer the loop leaves never exceeds the ceiling of 48000
  bytes, so the trimming branch is not taken, and the chunks emitted followed by the
  residual buffer are exactly the bytes held before followed by the bytes received.
\<close>

theorem residual_below_one_frame:
  "length (snd (on_data audioBuffer incoming)) < CHUNK_SIZE
   \<and> CHUNK_SIZE = 9600 \<and> maxBufferSize = 48000
   \<and> \<not> overflow (snd (frame_loop (audioBuffer @ incoming)))
   \<and> concat (fst (on_data audioBuffer incoming)) @ snd (on_data audioBuffer incoming)
       = audioBuffer @ incoming"
  using frame_loop_rest_short [of "audioBuffer @ incoming"]
  by (simp add: on_data_frame_loop no_overflow_after_loop frame_loop_keeps_bytes
      CHUNK_SIZE_val maxBufferSize_val)

subsection \<open>Speech queue: the filter\<close>

lemma collapsed_Cons:
  "collapsed (c # r) = ((c = CHR '' '' \<and> (r = [] \<or> \<not> is_space (hd r)) \<or> \<not> is_space c) \<and> collapsed r)"
  by (cases r) auto

lemma is_space_blank: "is_space (CHR '' '')"
  by (simp add: is_space_def)

lemma hd_collapse_spaces:
  "xs \<noteq> [] \<Longrightarrow> \<not> is_space (hd xs) \<Longrightarrow>
     collapse_spaces xs \<noteq> [] \<and> hd (collapse_spaces xs) = hd xs"
  by (cases xs) auto

lemma collapse_spaces_Nil: "collapse_spaces xs = [] \<longleftrightarrow> xs = []"
  by (cases xs) auto

lemma collapsed_collapse_spaces: "collapsed (collapse_spaces s)"
proof (induction s rule: collapse_spaces.induct)
  case 1
  then show ?case by simp
next
  case (2 c cs)
  show ?case
  proof (cases "is_space c")
    case True
    define r where "r = dropWhile is_space cs"
    have r: "r = [] \<or> \<not> is_space (hd r)"
      unfolding r_def using hd_dropWhile [of is_space cs] by blast
    have "collapse_spaces r = [] \<or> \<not> is_space (hd (collapse_spaces r))"
    proof (cases "r = []")
      case True
      then show ?thesis by simp
    next
      case False
      with r hd_collapse_spaces [of r] show ?thesis by simp
    qed
    moreover have "collapsed (collapse_spaces r)"
      unfolding r_def using 2(1) True by simp
    moreover have "collapse_spaces (c # cs) = CHR '' '' # collapse_spaces r"
      unfolding r_def using True by simp
    ultimately show ?thesis by (simp only: collapsed_Cons) simp
  next
    case False
    with 2 show ?thesis by (simp add: collapsed_Cons)
  qed
qed

lemma collapse_spaces_collapsed: "collapsed s \<Longrightarrow> collapse_spaces s = s"
proof (induction s rule: collapsed.induct)
  case 1
  then show ?case by simp
next
  case (2 c)
  then show ?case by auto
next
  case (3 c d r)
  then show ?case by (auto simp: is_space_blank)
qed

lemma collapsed_append: "collapsed (xs @ ys) \<Longrightarrow> collapsed xs \<and> collapsed ys"
proof (induction xs rule: collapsed.induct)
  case 1
  then show ?case by simp
next
  case (2 c)
  then show ?case by (auto simp: collapsed_Cons)
next
  case (3 c d r)
  then show ?case by auto
qed

lemma rev_dropWhile_rev: "rev (dropWhile P (rev s)) @ rev (takeWhile P (rev s)) = s"
  by (metis rev_append rev_rev_ident takeWhile_dropWhile_id)

lemma js_trim_ends:
  assumes "js_trim s \<noteq> []"
  shows "\<not> is_space (hd (js_trim s)) \<and> \<not> is_space (last (js_trim s))"
proof -
  define d where "d = dropWhile is_space s"
  define e where "e = dropWhile is_space (rev d)"
  have t: "js_trim s = rev e" by (simp add: js_trim_def d_def e_def)
  with assms have "e \<noteq> []" by simp
  then have "\<not> is_space (hd e)"
    unfolding e_def by (rule hd_dropWhile)
  then have l: "\<not> is_space (last (js_trim s))" by (simp add: t last_rev)
  have "rev e @ rev (takeWhile is_space (rev d)) = d"
    unfolding e_def by (rule rev_dropWhile_rev)
  with assms t have "d \<noteq> []" and "hd d = hd (js_trim s)"
    by (metis append_is_Nil_conv, metis hd_append2)
  moreover from \<open>d \<noteq> []\<close> have "\<not> is_space (hd d)"
    unfolding d_def by (rule hd_dropWhile)
  ultimately show ?thesis using l by simp
qed

lemma js_trim_fixed:
  assumes "t = [] \<or> (\<not> is_space (hd t) \<and> \<not> is_space (last t))"
  shows "js_trim t = t"
proof (cases "t = []")
  case True
  then show ?thesis by (simp add: js_trim_def)
next
  case False
  with assms have h: "\<not> is_space (hd t)" and l: "\<not> is_space (last t)" by simp_all
  from h have a: "dropWhile is_space t = t"
    by (simp only: dropWhile_eq_self_iff) simp
  from l have "\<not> is_space (hd (rev t))" by (simp add: hd_rev)
  then have "dropWhile is_space (rev t) = rev t"
    by (simp only: dropWhile_eq_self_iff) simp
  with a show ?thesis by (simp add: js_trim_def)
qed

lemma js_trim_idem: "js_trim (js_trim s) = js_trim s"
  using js_trim_ends [of s] by (intro js_trim_fixed) blast

lemma js_trim_sublist:
  "\<exists>pre post. s = pre @ js_trim s @ post"
proof -
  define d where "d = dropWhile is_space s"
  have "rev (dropWhile is_space (rev d)) @ rev (takeWhile is_space (rev d)) = d"
    by (rule rev_dropWhile_rev)
  then have "d = js_trim s @ rev (takeWhile is_space (rev d))"
    by (simp add: js_trim_def d_def)
  moreover have "s = takeWhile is_space s @ d" by (simp add: d_def)
  ultimately show ?thesis by metis
qed

lemma collapsed_js_trim: "collapsed s \<Longrightarrow> collapsed (js_trim s)"
  using js_trim_sublist [of s] collapsed_append by metis

lemma normalizeSpeechText_idem:
  "normalizeSpeechText (normalizeSpeechText s) = normalizeSpeechText s"
proof -
  have "collapsed (normalizeSpeechText s)"
    unfolding normalizeSpeechText_def by (intro collapsed_js_trim collapsed_collapse_spaces)
  then have "collapse_spaces (normalizeSpeechText s) = normalizeSpeechText s"
    by (rule collapse_spaces_collapsed)
  then have "normalizeSpeechText (normalizeSpeechText s) = js_trim (normalizeSpeechText s)"
    by (simp add: normalizeSpeechText_def)
  then show ?thesis
    by (simp add: normalizeSpeechText_def js_trim_idem)
qed

lemma includes_question_mark: "str_includes n ''?'' \<longleftrightarrow> CHR ''?'' \<in> set n"
  by (induction n) (auto simp: starts_with_def)

text \<open>
  C6 as stated does not hold: a text with a question mark in the middle neither ends with
  \<open>?\<close> nor begins with a pattern, yet it is queued (and sent when no drain is active),
  because the source tests \<^verbatim>\<open>normalized.includes('?')\<close>.
\<close>

theorem question_mark_inside_counterexample:
  "normalizeSpeechText ''really? ok'' = ''really? ok''
   \<and> \<not> claimed_question ''really? ok''
   \<and> speechQueue (speech_run initial_speech [Enqueue ''what is a binary tree?'', Enqueue ''really? ok''])
       = [''really? ok'']
   \<and> requested (speech_run initial_speech [Enqueue ''really? ok'']) = [''really? ok'']"
  by code_simp

text \<open>
  C6, amended. With \<open>n\<close> the normalized text: if \<open>n\<close> is non-empty and contains a
  question mark anywhere, or its lower-case form begins with one of the interrogative
  words or instruction phrases followed by a word boundary, then \<open>n\<close> is pushed at the end
  of the queue and the drain is invoked; otherwise the call changes nothing, so the text is
  neither queued nor dispatched.
\<close>

theorem enqueue_keeps_questions:
  "enqueueSpeechText s st =
     (if normalizeSpeechText s \<noteq> []
         \<and> (CHR ''?'' \<in> set (normalizeSpeechText s)
              \<or> questionPattern (toLowerCase (normalizeSpeechText s))
              \<or> promptPattern (toLowerCase (normalizeSpeechText s)))
      then processSpeechQueue (st\<lparr>speechQueue := speechQueue st @ [normalizeSpeechText s]\<rparr>)
      else st)"
  by (simp add: enqueueSpeechText_def isLikelyQuestionText_def normalizeSpeechText_idem
      includes_question_mark Let_def)

text \<open>The example of the specification: of the three utterances only the second is sent.\<close>

theorem enqueue_keeps_questions_witness:
  "requested (speech_run initial_speech
       [Enqueue ''hello there'', Enqueue ''what is a binary tree?'', Enqueue ''ok thanks''])
     = [''what is a binary tree?'']
   \<and> speechQueue (speech_run initial_speech
       [Enqueue ''hello there'', Enqueue ''what is a binary tree?'', Enqueue ''ok thanks'']) = []"
proof -
  have n: "normalizeSpeechText ''hello there'' = ''hello there''"
    "normalizeSpeechText ''what is a binary tree?'' = ''what is a binary tree?''"
    "normalizeSpeechText ''ok thanks'' = ''ok thanks''"
    by code_simp+
  have q: "\<not> questionPattern (toLowerCase ''hello there'')" "\<not> promptPattern (toLowerCase ''hello there'')"
    "\<not> questionPattern (toLowerCase ''ok thanks'')" "\<not> promptPattern (toLowerCase ''ok thanks'')"
    by code_simp+
  have t: "js_trim ''what is a binary tree?'' = ''what is a binary tree?''"
    by code_simp
  show ?thesis
    by (simp add: speech_run_def enqueue_keeps_questions n q t processSpeechQueue_def
        drain_until_await_def initial_speech_def)
qed

subsection \<open>Speech queue: the drain\<close>

text \<open>
  As long as only \<^verbatim>\<open>enqueueSpeechText\<close> calls and completions of dispatches happen,
  the drain keeps its invariant: at most one call is in flight, exactly when the flag is
  set, and the texts are sent in the order in which they were accepted.
\<close>

lemma accepted_append: "accepted (xs @ ys) = accepted xs @ accepted ys"
  by (induction xs rule: accepted.induct) simp_all

lemma speech_run_snoc: "speech_run st (evs @ [e]) = speech_step (speech_run st evs) e"
  by (simp add: speech_run_def)

lemma ok_normalized: "normalizeSpeechText s \<noteq> [] \<Longrightarrow> ok_item (normalizeSpeechText s)"
  by (simp add: ok_item_def) (simp add: normalizeSpeechText_def js_trim_idem)

lemma next_item_ok: "ok_item t \<Longrightarrow> next_item (t # q) = (Some t, q)"
  by (simp add: ok_item_def)

lemma drain_until_await_empty:
  "speechQueue st = [] \<Longrightarrow>
     drain_until_await st = st\<lparr>speechQueue := [], processingSpeechQueue := False\<rparr>"
  by (simp add: drain_until_await_def)

lemma drain_until_await_item:
  "speechQueue st = t # q \<Longrightarrow> ok_item t \<Longrightarrow>
     drain_until_await st
       = st\<lparr>speechQueue := q, in_flight := in_flight st @ [t], requested := requested st @ [t]\<rparr>"
  by (simp add: drain_until_await_def next_item_ok) (simp add: ok_item_def)

lemma enqueue_accepted:
  "enqueueSpeechText s st =
     (if accepted [Enqueue s] = [] then st
      else processSpeechQueue (st\<lparr>speechQueue := speechQueue st @ [normalizeSpeechText s]\<rparr>))"
  by (simp add: enqueueSpeechText_def Let_def)

lemma accepted_single:
  "accepted [Enqueue s] = [] \<or> (accepted [Enqueue s] = [normalizeSpeechText s] \<and> ok_item (normalizeSpeechText s))"
  by (simp add: ok_normalized)

lemma step_enqueue:
  assumes "drain_inv st"
  shows "drain_inv (enqueueSpeechText s st)
       \<and> requested (enqueueSpeechText s st) @ speechQueue (enqueueSpeechText s st)
           = requested st @ speechQueue st @ accepted [Enqueue s]"
proof (cases "accepted [Enqueue s] = []")
  case True
  with assms show ?thesis by (simp add: enqueue_accepted)
next
  case False
  with accepted_single [of s] have acc: "accepted [Enqueue s] = [normalizeSpeechText s]"
    and ok: "ok_item (normalizeSpeechText s)" by auto
  let ?n = "normalizeSpeechText s"
  let ?st1 = "st\<lparr>speechQueue := speechQueue st @ [?n]\<rparr>"
  have e: "enqueueSpeechText s st = processSpeechQueue ?st1"
    using False by (simp add: enqueue_accepted)
  show ?thesis
  proof (cases "processingSpeechQueue st")
    case True
    then have "processSpeechQueue ?st1 = ?st1" by (simp add: processSpeechQueue_def)
    with assms True ok show ?thesis
      unfolding acc by (simp add: e drain_inv_def)
  next
    case False
    with assms have q: "speechQueue st = []" and f: "in_flight st = []"
      by (simp_all add: drain_inv_def)
    have "processSpeechQueue ?st1
            = ?st1\<lparr>processingSpeechQueue := True, speechQueue := [],
                     in_flight := [?n], requested := requested st @ [?n]\<rparr>"
      using False ok by (simp add: processSpeechQueue_def drain_until_await_item q f)
    then show ?thesis
      unfolding acc by (simp add: e drain_inv_def q)
  qed
qed

lemma step_done:
  assumes "drain_inv st"
  shows "drain_inv (dispatch_completes i st)
       \<and> requested (dispatch_completes i st) @ speechQueue (dispatch_completes i st)
           = requested st @ speechQueue st"
proof (cases "i < length (in_flight st)")
  case False
  with assms show ?thesis by (simp add: dispatch_completes_def)
next
  case True
  with assms have p: "processingSpeechQueue st" and l: "length (in_flight st) = 1" and i: "i = 0"
    by (auto simp: drain_inv_def split: if_splits)
  from l have r: "remove_nth 0 (in_flight st) = []"
    by (cases "in_flight st") (simp_all add: remove_nth_def)
  let ?st1 = "st\<lparr>in_flight := []\<rparr>"
  have d: "dispatch_completes i st = drain_until_await ?st1"
    using True by (simp add: dispatch_completes_def i r)
  show ?thesis
  proof (cases "speechQueue st")
    case Nil
    then show ?thesis
      using assms by (simp add: d drain_until_await_empty drain_inv_def)
  next
    case (Cons t q)
    with assms have ok: "ok_item t" and oks: "list_all ok_item q" by (simp_all add: drain_inv_def)
    have "drain_until_await ?st1
            = ?st1\<lparr>speechQueue := q, in_flight := [t], requested := requested st @ [t]\<rparr>"
      using Cons ok by (simp add: drain_until_await_item)
    then show ?thesis
      using p oks Cons by (simp add: d drain_inv_def)
  qed
qed

lemma drain_inv_initial: "drain_inv initial_speech"
  by (simp add: drain_inv_def initial_speech_def)

lemma run_invariant:
  "StopCapture \<notin> set evs \<Longrightarrow>
     drain_inv (speech_run initial_speech evs)
     \<and> requested (speech_run initial_speech evs) @ speechQueue (speech_run initial_speech evs)
         = accepted evs"
proof (induction evs rule: rev_induct)
  case Nil
  then show ?case by (simp add: speech_run_def drain_inv_initial) (simp add: initial_speech_def)
next
  case (snoc e evs)
  then have inv: "drain_inv (speech_run initial_speech evs)"
    and fifo: "requested (speech_run initial_speech evs) @ speechQueue (speech_run initial_speech evs)
                 = accepted evs"
    and e: "e \<noteq> StopCapture" by auto
  show ?case
  proof (cases e)
    case (Enqueue s)
    with step_enqueue [OF inv, of s] fifo show ?thesis
      by (simp add: speech_run_snoc accepted_append)
  next
    case (DispatchDone i)
    with step_done [OF inv, of i] fifo show ?thesis
      by (simp add: speech_run_snoc accepted_append)
  next
    case StopCapture
    with e show ?thesis by simp
  qed
qed

lemma next_item_None: "next_item q = (None, b) \<Longrightarrow> b = []"
  by (induction q) (auto split: if_splits)

lemma processSpeechQueue_idem: "processSpeechQueue (processSpeechQueue st) = processSpeechQueue st"
  by (cases "next_item (speechQueue st)")
     (auto simp: processSpeechQueue_def drain_until_await_def split: option.splits
           dest!: next_item_None)

text \<open>
  C7. A drain invoked while another is running should do nothing, so that at most one
  request of the speech path is in flight at any time. The source breaks this once
  \<^verbatim>\<open>stopCapture\<close> takes part: it resets \<^verbatim>\<open>processingSpeechQueue\<close> while the
  drain is suspended in its \<^verbatim>\<open>await\<close>. After an utterance has been dispatched and
  \<^verbatim>\<open>stopCapture\<close> has run, one call is still in flight and the flag is off; the next
  accepted utterance then starts a second drain, and two requests are in flight together.
\<close>

theorem second_drain_after_stopCapture:
  "in_flight (speech_run initial_speech [Enqueue ''what is x?'', StopCapture, Enqueue ''how are you?''])
     = [''what is x?'', ''how are you?'']
   \<and> requested (speech_run initial_speech [Enqueue ''what is x?'', StopCapture, Enqueue ''how are you?''])
     = [''what is x?'', ''how are you?'']
   \<and> in_flight (speech_run initial_speech [Enqueue ''what is x?'']) = [''what is x?'']
   \<and> processingSpeechQueue (speech_run initial_speech [Enqueue ''what is x?''])
   \<and> in_flight (speech_run initial_speech [Enqueue ''what is x?'', StopCapture]) = [''what is x?'']
   \<and> processingSpeechQueue (speech_run initial_speech [Enqueue ''what is x?'', StopCapture]) = False"
  by code_simp

subsection \<open>PCM and float conversion\<close>

lemma round_ties_even_error: "\<bar>of_int (round_ties_even y) - y\<bar> \<le> 1 / 2"
proof -
  define f where "f = \<lfloor>y\<rfloor>"
  have b: "of_int f \<le> y" "y < of_int f + 1" unfolding f_def by linarith+
  have "round_ties_even y = f \<and> y - of_int f \<le> 1 / 2
      \<or> round_ties_even y = f + 1 \<and> y - of_int f \<ge> 1 / 2"
    unfolding round_ties_even_def f_def [symmetric] Let_def by auto
  with b show ?thesis by (auto simp: abs_if)
qed

lemma binade_le:
  assumes "x \<noteq> 0"
  shows "2 powi (binade x) \<le> \<bar>x\<bar>"
proof -
  obtain a b where q: "quotient_of \<bar>x\<bar> = (a, b)" by (cases "quotient_of \<bar>x\<bar>")
  then have b: "b > 0" by (rule quotient_of_denom_pos)
  from q have x: "\<bar>x\<bar> = of_int a / of_int b" by (rule quotient_of_div)
  have a: "a > 0"
  proof (rule ccontr)
    assume "\<not> a > 0"
    then have "of_int a / (of_int b :: rat) \<le> 0"
      using b by (simp add: divide_nonpos_pos)
    with x assms show False by simp
  qed
  let ?k = "bitlen a - bitlen b"
  show ?thesis
  proof (cases "2 powi ?k \<le> \<bar>x\<bar>")
    case True
    then show ?thesis by (simp add: binade_def q Let_def)
  next
    case False
    then have e: "binade x = ?k - 1" by (simp add: binade_def q Let_def)
    from bitlen_bounds [OF a] have la: "(2::int) ^ nat (bitlen a - 1) \<le> a" by simp
    from bitlen_bounds [OF b] have ub: "b < (2::int) ^ nat (bitlen b)" by simp
    have ba: "bitlen a \<ge> 1" using a by (simp add: bitlen_alt_def)
    have bb: "bitlen b \<ge> 1" using b by (simp add: bitlen_alt_def)
    have la': "(2::rat) powi (bitlen a - 1) \<le> of_int a"
    proof -
      have "(of_int ((2::int) ^ nat (bitlen a - 1)) :: rat) \<le> of_int a"
        using la by (simp only: of_int_le_iff)
      moreover have "(2::rat) powi (bitlen a - 1) = 2 ^ nat (bitlen a - 1)"
        using ba by (simp add: power_int_def)
      ultimately show ?thesis by simp
    qed
    have ub': "of_int b \<le> (2::rat) powi (bitlen b)"
    proof -
      have "(of_int b :: rat) \<le> of_int ((2::int) ^ nat (bitlen b))"
        using ub by (simp only: of_int_le_iff)
      moreover have "(2::rat) powi (bitlen b) = 2 ^ nat (bitlen b)"
        using bb by (simp add: power_int_def)
      ultimately show ?thesis by simp
    qed
    have "(2::rat) powi (?k - 1) = 2 powi (bitlen a - 1) / 2 powi (bitlen b)"
      by (simp add: power_int_diff)
    also have "\<dots> \<le> of_int a / 2 powi (bitlen b)"
      using la' by (simp add: divide_right_mono)
    also have "\<dots> \<le> of_int a / of_int b"
      using ub' a b by (simp add: divide_left_mono)
    finally show ?thesis by (simp add: e x)
  qed
qed

lemma round_to_error: "\<bar>round_to p x - x\<bar> \<le> \<bar>x\<bar> / 2 ^ p"
proof (cases "x = 0")
  case True
  then show ?thesis by (simp add: round_to_def)
next
  case False
  define u :: rat where "u = 2 powi (binade x - int p + 1)"
  have u: "u > 0" by (simp add: u_def)
  have r: "round_to p x = of_int (round_ties_even (x / u)) * u"
    using False by (simp add: round_to_def u_def Let_def)
  have "\<bar>round_to p x - x\<bar> = \<bar>of_int (round_ties_even (x / u)) - x / u\<bar> * u"
  proof -
    have "round_to p x - x = (of_int (round_ties_even (x / u)) - x / u) * u"
      using u by (simp add: r algebra_simps)
    then show ?thesis using u by (simp add: abs_mult)
  qed
  also have "\<dots> \<le> (1 / 2) * u"
    using round_ties_even_error [of "x / u"] u by (simp add: mult_right_mono)
  also have "(1 / 2) * u = 2 powi (binade x) / 2 ^ p"
  proof -
    have "u = 2 powi (binade x) * 2 powi (- int p) * 2"
      unfolding u_def by (simp add: power_int_add power_int_diff power_int_minus field_simps)
    then show ?thesis by (simp add: power_int_minus field_simps)
  qed
  also have "\<dots> \<le> \<bar>x\<bar> / 2 ^ p"
    using binade_le [OF False] by (simp add: divide_right_mono)
  finally show ?thesis .
qed


lemma roundtrip_sample:
  assumes lo: "- 32768 \<le> x" and hi: "x \<le> 32767"
  shows "float_to_sample (sample_to_float x) = x"
proof -
  define d :: rat where "d = (if x < 0 then 32768 else 32767)"
  define q where "q = of_int x / d"
  define v1 where "v1 = to_double q"
  define v2 where "v2 = to_float32 v1"
  define s where "s = max (- 1) (min 1 v2)"
  define y where "y = to_double (s * d)"
  have d: "0 < d" "d \<le> 32768" by (simp_all add: d_def)
  have xd: "\<bar>of_int x\<bar> \<le> d"
    using lo hi by (auto simp: d_def abs_if)
  have qd: "q * d = of_int x" using d by (simp add: q_def)
  have qb: "\<bar>q\<bar> \<le> 1"
    using xd d by (simp add: q_def abs_divide)
  have e1: "\<bar>v1 - q\<bar> \<le> \<bar>q\<bar> / 2 ^ 53"
    unfolding v1_def to_double_def by (rule round_to_error)
  have v1b: "\<bar>v1\<bar> \<le> 2 * \<bar>q\<bar>"
  proof -
    have "\<bar>q\<bar> / 2 ^ 53 \<le> \<bar>q\<bar>" by (simp add: field_simps)
    with e1 show ?thesis by linarith
  qed
  have e2: "\<bar>v2 - v1\<bar> \<le> \<bar>v1\<bar> / 2 ^ 24"
    unfolding v2_def to_float32_def by (rule round_to_error)
  have e3: "\<bar>v2 - q\<bar> \<le> \<bar>q\<bar> / 2 ^ 22"
  proof -
    have "\<bar>v1\<bar> / 2 ^ 24 \<le> 2 * \<bar>q\<bar> / 2 ^ 24"
      using v1b by (simp add: divide_right_mono)
    with e1 e2 have "\<bar>v2 - q\<bar> \<le> \<bar>q\<bar> / 2 ^ 53 + 2 * \<bar>q\<bar> / 2 ^ 24" by linarith
    also have "\<dots> \<le> \<bar>q\<bar> / 2 ^ 22" by (simp add: field_simps)
    finally show ?thesis .
  qed
  have small: "\<bar>q\<bar> / 2 ^ 22 < \<bar>q\<bar> \<or> q = 0" by (simp add: field_simps)
  have sign2: "(v2 < 0) = (x < 0)"
  proof -
    have "(q < 0) = (x < 0)" using d by (simp add: q_def divide_less_0_iff)
    moreover have "(v2 < 0) = (q < 0)" using e3 small by (auto simp: abs_if split: if_splits)
    ultimately show ?thesis by simp
  qed
  have sign: "(s < 0) = (x < 0)"
    using sign2 by (auto simp: s_def max_def min_def)
  have e4: "\<bar>s - q\<bar> \<le> \<bar>q\<bar> / 2 ^ 22"
    using e3 qb by (auto simp: s_def max_def min_def abs_if split: if_splits)
  have e5: "\<bar>s * d - of_int x\<bar> \<le> 1 / 2 ^ 7"
  proof -
    have "s * d - of_int x = (s - q) * d" using qd by (simp add: algebra_simps)
    then have "\<bar>s * d - of_int x\<bar> = \<bar>s - q\<bar> * d" using d by (simp add: abs_mult)
    also have "\<dots> \<le> (\<bar>q\<bar> / 2 ^ 22) * d" using e4 d by (simp add: mult_right_mono)
    also have "\<dots> \<le> (1 / 2 ^ 22) * 32768"
      using qb d by (intro mult_mono) (simp_all add: divide_right_mono)
    also have "\<dots> = 1 / 2 ^ 7" by simp
    finally show ?thesis .
  qed
  have xb: "\<bar>(of_int x :: rat)\<bar> \<le> 32768" using xd d by linarith
  have y0b: "\<bar>s * d\<bar> \<le> 32769" using e5 xb by (simp add: abs_if split: if_splits) 
  have e6: "\<bar>y - s * d\<bar> \<le> 32769 / 2 ^ 53"
  proof -
    have "\<bar>y - s * d\<bar> \<le> \<bar>s * d\<bar> / 2 ^ 53"
      unfolding y_def to_double_def by (rule round_to_error)
    also have "\<dots> \<le> 32769 / 2 ^ 53" using y0b by (simp add: divide_right_mono)
    finally show ?thesis .
  qed
  have "\<bar>y - of_int x\<bar> < 1 / 2"
  proof -
    have "\<bar>y - of_int x\<bar> \<le> \<bar>y - s * d\<bar> + \<bar>s * d - of_int x\<bar>" by linarith
    also have "\<dots> \<le> 32769 / 2 ^ 53 + 1 / 2 ^ 7" using e5 e6 by linarith
    also have "\<dots> < 1 / 2" by simp
    finally show ?thesis .
  qed
  then have "\<lfloor>y + 1 / 2\<rfloor> = x" by (simp add: floor_unique abs_if split: if_splits)
  moreover have "float_to_sample (sample_to_float x) = \<lfloor>y + 1 / 2\<rfloor>"
  proof -
    have "sample_to_float x = v2"
      by (simp add: sample_to_float_def v2_def v1_def q_def d_def)
    then show ?thesis
      using sign by (simp add: float_to_sample_def Let_def s_def [symmetric] y_def d_def)
  qed
  ultimately show ?thesis by simp
qed


lemma readInt16LE_range: "- 32768 \<le> readInt16LE lo hi \<and> readInt16LE lo hi \<le> 32767"
proof -
  define u where "u = uint lo + 256 * uint hi"
  have "uint lo < 256" "uint hi < 256"
    using uint_bounded [of lo] uint_bounded [of hi] by simp_all
  then have "0 \<le> u" "u < 65536" by (simp_all add: u_def)
  moreover have "readInt16LE lo hi = (if u \<ge> 32768 then u - 65536 else u)"
    by (simp add: readInt16LE_def u_def)
  ultimately show ?thesis by (cases "u \<ge> 32768") simp_all
qed

lemma write_read: "writeInt16LE (readInt16LE lo hi) = Some [lo, hi]"
proof -
  have b: "0 \<le> uint lo" "uint lo < 256" "0 \<le> uint hi" "uint hi < 256"
    using uint_bounded [of lo] uint_bounded [of hi] by simp_all
  define u where "u = uint lo + 256 * uint hi"
  have u: "0 \<le> u" "u < 65536" using b by (simp_all add: u_def)
  have m: "readInt16LE lo hi mod 65536 = u"
  proof (cases "u \<ge> 32768")
    case True
    then have "readInt16LE lo hi = u - 65536" by (simp add: readInt16LE_def u_def)
    then have "readInt16LE lo hi mod 65536 = (u - 65536) mod 65536" by simp
    also have "\<dots> = u mod 65536" by (metis minus_mod_self2)
    also have "\<dots> = u" using u by simp
    finally show ?thesis .
  next
    case False
    then have "readInt16LE lo hi = u" by (simp add: readInt16LE_def u_def)
    with u show ?thesis by simp
  qed
  have "u mod 256 = uint lo" "u div 256 = uint hi"
    using b by (simp_all add: u_def)
  then show ?thesis
    using readInt16LE_range [of lo hi] by (simp add: writeInt16LE_def m Let_def)
qed

text \<open>
  C9. Converting a buffer of Int16 samples (an even number of bytes) to floats and back
  gives the original buffer, byte for byte. The round trip is exact for every sample value,
  the extremes \<open>-32768\<close> and \<open>32767\<close> included: the deviation of one unit that the
  specification tolerates there does not occur.
\<close>

theorem pcm_float_roundtrip:
  "even (length pcmBuffer) \<Longrightarrow>
     (\<exists>float32Array. convertPCMBufferToFloat32 pcmBuffer = Some float32Array
        \<and> length float32Array = length pcmBuffer div 2
        \<and> convertFloat32ToPCMBuffer float32Array = Some pcmBuffer)"
proof (induction pcmBuffer rule: convertPCMBufferToFloat32.induct)
  case 1
  then show ?case by simp
next
  case (2 b)
  then show ?case by simp
next
  case (3 lo hi rest)
  then obtain fs where fs: "convertPCMBufferToFloat32 rest = Some fs"
    "length fs = length rest div 2" "convertFloat32ToPCMBuffer fs = Some rest"
    by auto
  have "float_to_sample (sample_to_float (readInt16LE lo hi)) = readInt16LE lo hi"
    using readInt16LE_range [of lo hi] by (intro roundtrip_sample) simp_all
  then show ?case
    by (simp add: fs write_read)
qed

lemma extremes:
  "sample_to_float 32767 = 1" "sample_to_float (- 32768) = - 1"
  "float_to_sample 1 = 32767" "float_to_sample (- 1) = - 32768"
  "sample_to_float 12345 = 6320833 / 16777216"
  by code_simp+

lemma concrete_floats:
  "convertPCMBufferToFloat32 [0xFF, 0x7F, 0x00, 0x80, 0x39, 0x30] = Some [1, - 1, 6320833 / 16777216]"
  by code_simp

theorem pcm_float_roundtrip_witness:
  "even (length [0xFF, 0x7F, 0x00, 0x80, 0x39, 0x30 :: byte])
   \<and> convertPCMBufferToFloat32 [0xFF, 0x7F, 0x00, 0x80, 0x39, 0x30]
       = Some [1, - 1, 6320833 / 16777216]
   \<and> convertFloat32ToPCMBuffer [1, - 1, 6320833 / 16777216]
       = Some [0xFF, 0x7F, 0x00, 0x80, 0x39, 0x30]"
proof -
  let ?buf = "[0xFF, 0x7F, 0x00, 0x80, 0x39, 0x30] :: byte list"
  have e: "even (length ?buf)" by simp
  from pcm_float_roundtrip [OF e] obtain fs where
    fs: "convertPCMBufferToFloat32 ?buf = Some fs" and rt: "convertFloat32ToPCMBuffer fs = Some ?buf"
    by blast
  from fs have "fs = [1, - 1, 6320833 / 16777216]"
    by (simp only: concrete_floats option.inject)
  with rt e concrete_floats show ?thesis by (simp only: simp_thms)
qed

end
